theory Spec2Isabelle
  imports Main
begin

section \<open>The ready queue (executor.c)\<close>

text \<open>
  A \<^verbatim>\<open>Future*\<close> is an address; the model writes addresses of futures as natural
  numbers and the null pointer as \<open>None\<close>. The slots of \<^verbatim>\<open>futs\<close> are a list; the
  slots that \<^verbatim>\<open>malloc\<close> leaves indeterminate hold \<open>None\<close>, and no function below
  reads a slot before \<^verbatim>\<open>push\<close> has written it (lemma \<open>contents_push\<close>).

  \<^verbatim>\<open>size\<close> and \<^verbatim>\<open>max_size\<close> are \<^verbatim>\<open>size_t\<close>, modelled as \<open>nat\<close>: \<^verbatim>\<open>size\<close> is only
  counted up below \<^verbatim>\<open>max_size\<close> and down above 0. \<^verbatim>\<open>front\<close> and \<^verbatim>\<open>back\<close> are
  \<^verbatim>\<open>int\<close>, 32 bits wide where epoll exists, modelled as \<open>int\<close> with the conversions
  of C written out: \<open>to_int\<close> is the value an \<^verbatim>\<open>int\<close> holds after an operation whose
  exact result is \<open>x\<close> (\<open>x\<close> modulo \<open>2\<^sup>3\<^sup>2\<close>, between \<open>INT_MIN\<close> and \<open>INT_MAX\<close>), and
  \<open>to_size_t\<close> the conversion to the 64-bit \<^verbatim>\<open>size_t\<close>. An \<^verbatim>\<open>int\<close> sum beyond
  \<open>INT_MAX\<close> is undefined in C; the model gives it the value the compiled code gives
  it, by wrap-around.

  \<open>next_slot m i\<close> is \<^verbatim>\<open>(i + 1) % max_size\<close> as C evaluates it: the sum is an
  \<^verbatim>\<open>int\<close>, converted to \<^verbatim>\<open>size_t\<close> for the remainder, and the remainder is
  converted to \<^verbatim>\<open>int\<close> by the assignment. The remainder is never taken with
  \<^verbatim>\<open>max_size\<close> 0: \<^verbatim>\<open>push\<close> has returned before, the queue being full, and \<^verbatim>\<open>pop\<close>
  too, the queue being empty. While \<^verbatim>\<open>max_size\<close> is at most \<open>INT_MAX\<close> no conversion
  changes a value (lemma \<open>next_slot_exact\<close>) and both indices are slots of the array
  (lemma \<open>que_inv_bounds\<close>); beyond, \<^verbatim>\<open>back + 1\<close> can overflow and an index can
  leave the array, and the theorems below do not speak of such a queue.
\<close>

type_synonym fid = nat

definition INT_MAX :: int where
  "INT_MAX = 2147483647"

definition INT_MIN :: int where
  "INT_MIN = - 2147483648"

definition to_int :: "int \<Rightarrow> int" where
  "to_int x = (x + 2147483648) mod 4294967296 - 2147483648"

definition to_size_t :: "int \<Rightarrow> nat" where
  "to_size_t x = nat (x mod 18446744073709551616)"

definition next_slot :: "nat \<Rightarrow> int \<Rightarrow> int" where
  "next_slot m i = to_int (int (to_size_t (to_int (i + 1)) mod m))"

record FutQue =
  futs :: "fid option list"
  size_q :: nat
  max_size :: nat
  front :: int
  back_q :: int

definition futque_create :: "nat \<Rightarrow> FutQue" where
  "futque_create n =
     \<lparr>futs = replicate n None, size_q = 0, max_size = n, front = 0, back_q = - 1\<rparr>"

definition isEmpty :: "FutQue \<Rightarrow> bool" where
  "isEmpty que = (size_q que = 0)"

definition push :: "FutQue \<Rightarrow> fid \<Rightarrow> FutQue" where
  "push que fut =
     (if size_q que = max_size que then que
      else
        let b = next_slot (max_size que) (back_q que)
        in que\<lparr>back_q := b, futs := (futs que)[nat b := Some fut], size_q := size_q que + 1\<rparr>)"

definition pop :: "FutQue \<Rightarrow> fid option \<times> FutQue" where
  "pop que =
     (if isEmpty que then (None, que)
      else
        (futs que ! nat (front que),
         que\<lparr>front := next_slot (max_size que) (front que), size_q := size_q que - 1\<rparr>))"

text \<open>The futures a queue holds, oldest first: the slots from \<open>front\<close> on, cyclically.\<close>

definition contents :: "FutQue \<Rightarrow> fid option list" where
  "contents que =
     map (\<lambda>i. futs que ! nat ((front que + int i) mod int (max_size que))) [0..<size_q que]"

text \<open>
  The invariant of the circular buffer, for a capacity that the indices can hold.
\<close>

definition que_inv :: "FutQue \<Rightarrow> bool" where
  "que_inv que =
     (int (max_size que) \<le> INT_MAX \<and>
      length (futs que) = max_size que \<and> size_q que \<le> max_size que \<and>
      0 \<le> front que \<and> front que \<le> int (max_size que) - 1 + (if max_size que = 0 then 1 else 0) \<and>
      - 1 \<le> back_q que \<and> back_q que \<le> int (max_size que) - 1 \<and>
      (back_q que + 1) mod int (max_size que) =
        (front que + int (size_q que)) mod int (max_size que))"

text \<open>A sequence of queue operations, and the values its pops return.\<close>

datatype que_op = Push fid | Pop

fun run_ops :: "FutQue \<Rightarrow> que_op list \<Rightarrow> FutQue \<times> fid option list" where
  "run_ops que [] = (que, [])"
| "run_ops que (Push fut # ops) = run_ops (push que fut) ops"
| "run_ops que (Pop # ops) =
     (case pop que of (r, que') \<Rightarrow>
        (case run_ops que' ops of (que'', rs) \<Rightarrow> (que'', r # rs)))"

text \<open>
  The specification's queue (section 4.1), written from its words: a list of at most
  \<open>C\<close> futures; push appends unless the list holds \<open>C\<close> futures; pop takes the head,
  or returns none on the empty list.
\<close>

fun fifo_spec :: "nat \<Rightarrow> fid list \<Rightarrow> que_op list \<Rightarrow> fid list \<times> fid option list" where
  "fifo_spec C xs [] = (xs, [])"
| "fifo_spec C xs (Push fut # ops) =
     fifo_spec C (if length xs = C then xs else xs @ [fut]) ops"
| "fifo_spec C [] (Pop # ops) =
     (case fifo_spec C [] ops of (ys, rs) \<Rightarrow> (ys, None # rs))"
| "fifo_spec C (x # xs) (Pop # ops) =
     (case fifo_spec C xs ops of (ys, rs) \<Rightarrow> (ys, Some x # rs))"



section \<open>Futures (future.h, waker.h, future_combinators.h)\<close>

text \<open>
  Modelled from the spec: the headers that declare the types below are not among the
  sources; the fields are those the three source files read and write, with the
  meaning of section 3 of the specification. \<^verbatim>\<open>void*\<close> payloads are opaque values,
  \<^verbatim>\<open>NULL\<close> among them.
\<close>

type_synonym val = nat

definition NULL :: val where
  "NULL = 0"

datatype FutureState = FUTURE_PENDING | FUTURE_COMPLETED | FUTURE_FAILURE

text \<open>Modelled from the spec: section 6 gives \<^verbatim>\<open>FUTURE_SUCCESS = 0\<close>.\<close>

definition FUTURE_SUCCESS :: int where
  "FUTURE_SUCCESS = 0"

text \<open>
  Modelled from the spec: the values of the combinators' error codes are macros of the
  missing header; the functions below take them as a parameter.
\<close>

record ErrCodes =
  THEN_FUTURE_ERR_FUT1_FAILED :: int
  THEN_FUTURE_ERR_FUT2_FAILED :: int
  JOIN_FUTURE_ERR_FUT1_FAILED :: int
  JOIN_FUTURE_ERR_FUT2_FAILED :: int
  JOIN_FUTURE_ERR_BOTH_FUTS_FAILED :: int

datatype SelectTag =
  SELECT_COMPLETED_NONE | SELECT_COMPLETED_FUT1 | SELECT_COMPLETED_FUT2
| SELECT_FAILED_FUT1 | SELECT_FAILED_FUT2 | SELECT_FAILED_BOTH

text \<open>The functions a \<^verbatim>\<open>progress\<close> pointer can hold: the three combinators', or a leaf's.\<close>

datatype progress_fn = then_progress_fn | join_progress_fn | select_progress_fn | leaf_progress_fn nat

text \<open>
  A combinator's struct starts with its \<^verbatim>\<open>Future base\<close>, so the address of the base is
  the address of the struct. The model keeps the members that follow the base in the
  field \<open>ext\<close> of the object at that address; the cast \<^verbatim>\<open>(ThenFuture*) base\<close> reads
  them, and is an error of the model on an object of another kind.
\<close>

record ThenFuture =
  then_fut1 :: fid
  then_fut2 :: fid
  then_fut1_completed :: bool

record FutResult =
  res_ok :: val
  res_errcode :: int

record JoinFuture =
  join_fut1 :: fid
  join_fut2 :: fid
  join_fut1_completed :: FutureState
  join_fut2_completed :: FutureState
  result_fut1 :: FutResult
  result_fut2 :: FutResult

record SelectFuture =
  select_fut1 :: fid
  select_fut2 :: fid
  which_completed :: SelectTag

datatype ext = LeafExt | ThenExt ThenFuture | JoinExt JoinFuture | SelectExt SelectFuture

record Future =
  progress :: progress_fn
  is_active :: bool
  arg :: val
  ok :: val
  errcode :: int
  ext :: ext

text \<open>One executor is modelled, so a waker's \<^verbatim>\<open>executor\<close> member, always its address, is left out.\<close>

record Waker =
  future :: fid

section \<open>The reactor and the executor (mio.c, executor.c)\<close>

text \<open>
  The kernel is a parameter: its state is of any type \<open>'k\<close>, and \<^verbatim>\<open>epoll_create1\<close>,
  \<^verbatim>\<open>epoll_ctl\<close> and \<^verbatim>\<open>epoll_wait\<close> are functions on it. \<^verbatim>\<open>epoll_wait\<close> gets the
  buffer and returns the count and the buffer as written, or nothing when it never
  returns.
\<close>

record epoll_event =
  events :: nat
  data_ptr :: fid

datatype epoll_op = EPOLL_CTL_ADD | EPOLL_CTL_DEL

record 'k Kernel =
  epoll_create1 :: "'k \<Rightarrow> int \<Rightarrow> int \<times> 'k"
  epoll_ctl :: "'k \<Rightarrow> int \<Rightarrow> epoll_op \<Rightarrow> int \<Rightarrow> epoll_event option \<Rightarrow> int \<times> 'k"
  epoll_wait :: "'k \<Rightarrow> int \<Rightarrow> epoll_event list \<Rightarrow> nat \<Rightarrow> int \<Rightarrow> (int \<times> epoll_event list \<times> 'k) option"

text \<open>
  The member \<^verbatim>\<open>executor\<close> of the reactor is left out, as the executor is the
  world's. The buffer \<^verbatim>\<open>events\<close> holds what \<^verbatim>\<open>malloc\<close> left (the parameter
  \<open>junk\<close> of \<^verbatim>\<open>mio_create\<close>) until \<^verbatim>\<open>epoll_wait\<close> writes it.
\<close>

definition MAX_EVENTS :: nat where
  "MAX_EVENTS = 64"

record Mio =
  epoll_fd :: int
  registered_count :: int
  mio_events :: "epoll_event list"

text \<open>
  The trace is a ghost of the model: \<^verbatim>\<open>executor_spawn\<close> appends \<open>Spawned fut b\<close>, with
  \<open>b\<close> true when the queue had room for the future, and the drive loop appends
  \<open>Progressed fut\<close> when it calls the future's \<^verbatim>\<open>progress\<close>.
\<close>

datatype event = Spawned fid bool | Progressed fid

record 'k world =
  heap :: "fid \<Rightarrow> Future"
  que :: FutQue
  mio :: Mio
  kern :: "'k"
  trace :: "event list"

text \<open>
  What ends a call without a return: \<^verbatim>\<open>exit(1)\<close>, a wait that never ends, the fuel of a
  loop of the model used up, a cast to a struct the object is not, a null or an
  out-of-range read; and, in a run with the frame of a combinator checked (\<open>framed\<close>
  below), a child that has written the members of the combinator that called it.
\<close>

datatype error = Exit1 | Blocked | OutOfFuel | BadCast | NullDeref | OutOfBounds | WroteMembers

definition bind_res :: "error + 'a \<Rightarrow> ('a \<Rightarrow> error + 'b) \<Rightarrow> error + 'b" where
  "bind_res m f = (case m of Inl e \<Rightarrow> Inl e | Inr x \<Rightarrow> f x)"

text \<open>
  The indirect call \<^verbatim>\<open>fut->progress(fut, mio, waker)\<close>: a parameter \<open>call\<close> of every
  function that makes it. The reactor is the world's.
\<close>

type_synonym 'k call = "fid \<Rightarrow> Waker \<Rightarrow> 'k world \<Rightarrow> error + (FutureState \<times> 'k world)"

subsection \<open>mio.c\<close>

text \<open>
  \<^verbatim>\<open>registered_count\<close> is an \<^verbatim>\<open>int\<close>: \<^verbatim>\<open>registered_count++\<close> at \<open>INT_MAX\<close> and
  \<^verbatim>\<open>registered_count--\<close> at \<open>INT_MIN\<close> overflow, which C leaves undefined and the
  compiled code wraps around, as \<open>to_int\<close> does.
\<close>

definition mio_create :: "'k Kernel \<Rightarrow> 'k \<Rightarrow> epoll_event list \<Rightarrow> error + (Mio \<times> 'k)" where
  "mio_create K k junk =
     (case epoll_create1 K k 0 of (fd, k') \<Rightarrow>
        if fd = - 1 then Inl Exit1
        else Inr (\<lparr>epoll_fd = fd, registered_count = 0, mio_events = junk\<rparr>, k'))"

definition mio_register :: "'k Kernel \<Rightarrow> 'k world \<Rightarrow> int \<Rightarrow> nat \<Rightarrow> Waker \<Rightarrow> int \<times> 'k world" where
  "mio_register K w fd evs waker =
     (let ev = \<lparr>events = evs, data_ptr = future waker\<rparr> in
      case epoll_ctl K (kern w) (epoll_fd (mio w)) EPOLL_CTL_ADD fd (Some ev) of (r, k') \<Rightarrow>
        if r = - 1 then (- 1, w\<lparr>kern := k'\<rparr>)
        else (0, w\<lparr>kern := k',
                   mio := (mio w)\<lparr>registered_count := to_int (registered_count (mio w) + 1)\<rparr>\<rparr>))"

definition mio_unregister :: "'k Kernel \<Rightarrow> 'k world \<Rightarrow> int \<Rightarrow> int \<times> 'k world" where
  "mio_unregister K w fd =
     (case epoll_ctl K (kern w) (epoll_fd (mio w)) EPOLL_CTL_DEL fd None of (r, k') \<Rightarrow>
        if r = - 1 then (- 1, w\<lparr>kern := k'\<rparr>)
        else (0, w\<lparr>kern := k',
                   mio := (mio w)\<lparr>registered_count := to_int (registered_count (mio w) - 1)\<rparr>\<rparr>))"

subsection \<open>executor.c\<close>

definition executor_create :: "'k Kernel \<Rightarrow> nat \<Rightarrow> (fid \<Rightarrow> Future) \<Rightarrow> 'k \<Rightarrow> epoll_event list \<Rightarrow> error + 'k world" where
  "executor_create K max_queue_size h k junk =
     bind_res (mio_create K k junk) (\<lambda>(m, k').
       Inr \<lparr>heap = h, que = futque_create max_queue_size, mio = m, kern = k', trace = []\<rparr>)"

definition executor_spawn :: "'k world \<Rightarrow> fid \<Rightarrow> 'k world" where
  "executor_spawn w fut =
     w\<lparr>heap := (heap w)(fut := (heap w fut)\<lparr>is_active := True\<rparr>),
       que := push (que w) fut,
       trace := trace w @ [Spawned fut (size_q (que w) \<noteq> max_size (que w))]\<rparr>"

definition waker_wake :: "'k world \<Rightarrow> Waker \<Rightarrow> 'k world" where
  "waker_wake w waker = executor_spawn w (future waker)"

text \<open>
  \<^verbatim>\<open>mio_poll\<close>: the loop over the first \<open>n\<close> events of the buffer is a fold, each
  step a call of \<^verbatim>\<open>waker_wake\<close> for the future the event carries.
\<close>

definition mio_poll :: "'k Kernel \<Rightarrow> 'k world \<Rightarrow> error + 'k world" where
  "mio_poll K w =
     (if registered_count (mio w) = 0 then Inr w
      else
        case epoll_wait K (kern w) (epoll_fd (mio w)) (mio_events (mio w)) MAX_EVENTS (- 1) of
          None \<Rightarrow> Inl Blocked
        | Some (n, buf, k') \<Rightarrow>
            if n = - 1 then Inl Exit1
            else if length buf < nat n then Inl OutOfBounds
            else
              Inr (foldl (\<lambda>w' ev. waker_wake w' \<lparr>future = data_ptr ev\<rparr>)
                     (w\<lparr>kern := k', mio := (mio w)\<lparr>mio_events := buf\<rparr>\<rparr>) (take (nat n) buf)))"

text \<open>
  The inner loop of \<^verbatim>\<open>executor_run\<close>, and the function itself. Both loops can run for
  ever; each iteration of either uses one unit of fuel.
\<close>

fun drain :: "'k call \<Rightarrow> nat \<Rightarrow> 'k world \<Rightarrow> error + 'k world" where
  "drain call 0 w = Inl OutOfFuel"
| "drain call (Suc n) w =
     (if isEmpty (que w) then Inr w
      else
        case pop (que w) of
          (None, q) \<Rightarrow> Inl NullDeref
        | (Some fut, q) \<Rightarrow>
            bind_res (call fut \<lparr>future = fut\<rparr> (w\<lparr>que := q, trace := trace w @ [Progressed fut]\<rparr>))
              (\<lambda>(state, w').
                 drain call n
                   (if state = FUTURE_COMPLETED \<or> state = FUTURE_FAILURE
                    then w'\<lparr>heap := (heap w')(fut := (heap w' fut)\<lparr>is_active := False\<rparr>)\<rparr>
                    else w')))"

fun executor_run :: "'k Kernel \<Rightarrow> 'k call \<Rightarrow> nat \<Rightarrow> 'k world \<Rightarrow> error + 'k world" where
  "executor_run K call 0 w = Inl OutOfFuel"
| "executor_run K call (Suc n) w =
     (if isEmpty (que w) then Inr w
      else
        bind_res (drain call n w) (\<lambda>w1.
        bind_res (mio_poll K w1) (\<lambda>w2.
          executor_run K call n w2)))"

section \<open>The combinators (future_combinators.c)\<close>

text \<open>
  Each \<^verbatim>\<open>progress\<close> function returns its state and the world it leaves, and, as a
  ghost of the model, the indirect calls it made to its children, in order: the child
  called (through \<^verbatim>\<open>fut1\<close> or through \<^verbatim>\<open>fut2\<close>), its address and the state it
  returned. After a call returns, the members of \<^verbatim>\<open>self\<close> are read again from the
  world the call left, as the C code reads them from memory.
\<close>

datatype child = Fut1 | Fut2

type_synonym calls = "(child \<times> fid \<times> FutureState) list"

type_synonym 'k progress_result = "error + (FutureState \<times> 'k world \<times> calls)"

definition upd :: "fid \<Rightarrow> (Future \<Rightarrow> Future) \<Rightarrow> 'k world \<Rightarrow> 'k world" where
  "upd p f w = w\<lparr>heap := (heap w)(p := f (heap w p))\<rparr>"

definition as_then :: "'k world \<Rightarrow> fid \<Rightarrow> error + ThenFuture" where
  "as_then w p = (case ext (heap w p) of ThenExt t \<Rightarrow> Inr t | _ \<Rightarrow> Inl BadCast)"

definition as_join :: "'k world \<Rightarrow> fid \<Rightarrow> error + JoinFuture" where
  "as_join w p = (case ext (heap w p) of JoinExt t \<Rightarrow> Inr t | _ \<Rightarrow> Inl BadCast)"

definition as_select :: "'k world \<Rightarrow> fid \<Rightarrow> error + SelectFuture" where
  "as_select w p = (case ext (heap w p) of SelectExt t \<Rightarrow> Inr t | _ \<Rightarrow> Inl BadCast)"

subsection \<open>Then\<close>

text \<open>Lines 31 to 41 of \<^verbatim>\<open>then_progress\<close>: the second future.\<close>

definition then_second :: "ErrCodes \<Rightarrow> 'k call \<Rightarrow> fid \<Rightarrow> Waker \<Rightarrow> 'k world \<Rightarrow> calls \<Rightarrow> 'k progress_result" where
  "then_second E call base waker w tr =
     bind_res (as_then w base) (\<lambda>self.
     bind_res (call (then_fut2 self) waker w) (\<lambda>(state2, w2).
       let tr2 = tr @ [(Fut2, then_fut2 self, state2)] in
       if state2 = FUTURE_PENDING then Inr (FUTURE_PENDING, w2, tr2)
       else if state2 = FUTURE_FAILURE then
         Inr (FUTURE_FAILURE, upd base (\<lambda>b. b\<lparr>errcode := THEN_FUTURE_ERR_FUT2_FAILED E\<rparr>) w2, tr2)
       else
         bind_res (as_then w2 base) (\<lambda>self2.
           Inr (FUTURE_COMPLETED, upd base (\<lambda>b. b\<lparr>ok := ok (heap w2 (then_fut2 self2))\<rparr>) w2, tr2))))"

definition then_progress :: "ErrCodes \<Rightarrow> 'k call \<Rightarrow> fid \<Rightarrow> Waker \<Rightarrow> 'k world \<Rightarrow> 'k progress_result" where
  "then_progress E call base waker w =
     bind_res (as_then w base) (\<lambda>self.
       if \<not> then_fut1_completed self then
         bind_res (call (then_fut1 self) waker w) (\<lambda>(state1, w1).
           if state1 = FUTURE_PENDING then Inr (FUTURE_PENDING, w1, [(Fut1, then_fut1 self, state1)])
           else if state1 = FUTURE_FAILURE then
             Inr (FUTURE_FAILURE, upd base (\<lambda>b. b\<lparr>errcode := THEN_FUTURE_ERR_FUT1_FAILED E\<rparr>) w1,
                  [(Fut1, then_fut1 self, state1)])
           else
             bind_res (as_then w1 base) (\<lambda>self1.
               let w1a = upd base (\<lambda>b. b\<lparr>ext := ThenExt (self1\<lparr>then_fut1_completed := True\<rparr>)\<rparr>) w1;
                   w1b = upd (then_fut2 self1) (\<lambda>b. b\<lparr>arg := ok (heap w1a (then_fut1 self1))\<rparr>) w1a
               in then_second E call base waker w1b [(Fut1, then_fut1 self, state1)]))
       else then_second E call base waker w [])"

definition future_then :: "fid \<Rightarrow> fid \<Rightarrow> Future" where
  "future_then fut1 fut2 =
     \<lparr>progress = then_progress_fn, is_active = False, arg = NULL, ok = NULL,
      errcode = FUTURE_SUCCESS,
      ext = ThenExt \<lparr>then_fut1 = fut1, then_fut2 = fut2, then_fut1_completed = False\<rparr>\<rparr>"

subsection \<open>Join\<close>

text \<open>Lines 66 to 80 and lines 82 to 96 of \<^verbatim>\<open>join_progress\<close>: one child each.\<close>

definition join_first :: "'k call \<Rightarrow> fid \<Rightarrow> Waker \<Rightarrow> 'k world \<Rightarrow> error + ('k world \<times> calls)" where
  "join_first call base waker w =
     bind_res (as_join w base) (\<lambda>self.
       if join_fut1_completed self = FUTURE_PENDING then
         bind_res (call (join_fut1 self) waker w) (\<lambda>(state1, w1).
         bind_res (as_join w1 base) (\<lambda>self1.
           Inr (if state1 = FUTURE_PENDING then w1
                else if state1 = FUTURE_COMPLETED then
                  upd base (\<lambda>b. b\<lparr>ext := JoinExt (self1\<lparr>join_fut1_completed := FUTURE_COMPLETED,
                    result_fut1 := \<lparr>res_ok = ok (heap w1 (join_fut1 self1)),
                                    res_errcode = FUTURE_SUCCESS\<rparr>\<rparr>)\<rparr>) w1
                else
                  upd base (\<lambda>b. b\<lparr>ext := JoinExt (self1\<lparr>join_fut1_completed := FUTURE_FAILURE,
                    result_fut1 := \<lparr>res_ok = NULL,
                                    res_errcode = errcode (heap w1 (join_fut1 self1))\<rparr>\<rparr>)\<rparr>) w1,
                [(Fut1, join_fut1 self, state1)])))
       else Inr (w, []))"

definition join_second :: "'k call \<Rightarrow> fid \<Rightarrow> Waker \<Rightarrow> 'k world \<Rightarrow> error + ('k world \<times> calls)" where
  "join_second call base waker w =
     bind_res (as_join w base) (\<lambda>self.
       if join_fut2_completed self = FUTURE_PENDING then
         bind_res (call (join_fut2 self) waker w) (\<lambda>(state2, w2).
         bind_res (as_join w2 base) (\<lambda>self2.
           Inr (if state2 = FUTURE_PENDING then w2
                else if state2 = FUTURE_COMPLETED then
                  upd base (\<lambda>b. b\<lparr>ext := JoinExt (self2\<lparr>join_fut2_completed := FUTURE_COMPLETED,
                    result_fut2 := \<lparr>res_ok = ok (heap w2 (join_fut2 self2)),
                                    res_errcode = FUTURE_SUCCESS\<rparr>\<rparr>)\<rparr>) w2
                else
                  upd base (\<lambda>b. b\<lparr>ext := JoinExt (self2\<lparr>join_fut2_completed := FUTURE_FAILURE,
                    result_fut2 := \<lparr>res_ok = NULL,
                                    res_errcode = errcode (heap w2 (join_fut2 self2))\<rparr>\<rparr>)\<rparr>) w2,
                [(Fut2, join_fut2 self, state2)])))
       else Inr (w, []))"

definition join_progress :: "ErrCodes \<Rightarrow> 'k call \<Rightarrow> fid \<Rightarrow> Waker \<Rightarrow> 'k world \<Rightarrow> 'k progress_result" where
  "join_progress E call base waker w =
     bind_res (join_first call base waker w) (\<lambda>(w1, tr1).
     bind_res (join_second call base waker w1) (\<lambda>(w2, tr2).
     bind_res (as_join w2 base) (\<lambda>self.
       if join_fut1_completed self = FUTURE_PENDING \<or> join_fut2_completed self = FUTURE_PENDING
       then Inr (FUTURE_PENDING, w2, tr1 @ tr2)
       else if join_fut1_completed self = FUTURE_FAILURE \<and> join_fut2_completed self = FUTURE_FAILURE
       then Inr (FUTURE_FAILURE,
                 upd base (\<lambda>b. b\<lparr>errcode := JOIN_FUTURE_ERR_BOTH_FUTS_FAILED E\<rparr>) w2, tr1 @ tr2)
       else if join_fut1_completed self = FUTURE_FAILURE
       then Inr (FUTURE_FAILURE,
                 upd base (\<lambda>b. b\<lparr>errcode := JOIN_FUTURE_ERR_FUT1_FAILED E\<rparr>) w2, tr1 @ tr2)
       else if join_fut2_completed self = FUTURE_FAILURE
       then Inr (FUTURE_FAILURE,
                 upd base (\<lambda>b. b\<lparr>errcode := JOIN_FUTURE_ERR_FUT2_FAILED E\<rparr>) w2, tr1 @ tr2)
       else Inr (FUTURE_COMPLETED,
                 upd base (\<lambda>b. b\<lparr>ok := res_ok (result_fut1 self)\<rparr>) w2, tr1 @ tr2))))"

text \<open>
  \<^verbatim>\<open>future_join\<close> and \<^verbatim>\<open>future_select\<close> return a struct of which they assign some
  members only; the others keep what the stack held, the parameter \<open>junk\<close>.
\<close>

definition future_join :: "Future \<Rightarrow> fid \<Rightarrow> fid \<Rightarrow> Future" where
  "future_join junk fut1 fut2 =
     junk\<lparr>progress := join_progress_fn, errcode := FUTURE_SUCCESS, ok := NULL,
          ext := JoinExt \<lparr>join_fut1 = fut1, join_fut2 = fut2,
            join_fut1_completed = FUTURE_PENDING, join_fut2_completed = FUTURE_PENDING,
            result_fut1 = \<lparr>res_ok = NULL, res_errcode = FUTURE_SUCCESS\<rparr>,
            result_fut2 = \<lparr>res_ok = NULL, res_errcode = FUTURE_SUCCESS\<rparr>\<rparr>\<rparr>"

subsection \<open>Select\<close>

text \<open>
  Lines 161 to 174 and lines 176 to 189 of \<^verbatim>\<open>select_progress\<close>: one child each; the
  first component is the state the function returns from inside the block, if it does.
\<close>

definition select_first :: "'k call \<Rightarrow> fid \<Rightarrow> Waker \<Rightarrow> 'k world \<Rightarrow> error + (FutureState option \<times> 'k world \<times> calls)" where
  "select_first call base waker w =
     bind_res (as_select w base) (\<lambda>self.
       if which_completed self = SELECT_COMPLETED_NONE \<or> which_completed self = SELECT_FAILED_FUT2 then
         bind_res (call (select_fut1 self) waker w) (\<lambda>(state1, w1).
         bind_res (as_select w1 base) (\<lambda>self1.
           if state1 = FUTURE_COMPLETED then
             let w1a = upd base (\<lambda>b. b\<lparr>ext := SelectExt (self1\<lparr>which_completed := SELECT_COMPLETED_FUT1\<rparr>)\<rparr>) w1
             in Inr (Some FUTURE_COMPLETED,
                     upd base (\<lambda>b. b\<lparr>ok := ok (heap w1a (select_fut1 self1))\<rparr>) w1a,
                     [(Fut1, select_fut1 self, state1)])
           else if state1 = FUTURE_FAILURE then
             Inr (None,
                  upd base (\<lambda>b. b\<lparr>ext := SelectExt (self1\<lparr>which_completed :=
                    (if which_completed self1 = SELECT_FAILED_FUT2 then SELECT_FAILED_BOTH
                     else SELECT_FAILED_FUT1)\<rparr>)\<rparr>) w1,
                  [(Fut1, select_fut1 self, state1)])
           else Inr (None, w1, [(Fut1, select_fut1 self, state1)])))
       else Inr (None, w, []))"

definition select_second :: "'k call \<Rightarrow> fid \<Rightarrow> Waker \<Rightarrow> 'k world \<Rightarrow> error + (FutureState option \<times> 'k world \<times> calls)" where
  "select_second call base waker w =
     bind_res (as_select w base) (\<lambda>self.
       if which_completed self = SELECT_COMPLETED_NONE \<or> which_completed self = SELECT_FAILED_FUT1 then
         bind_res (call (select_fut2 self) waker w) (\<lambda>(state2, w2).
         bind_res (as_select w2 base) (\<lambda>self2.
           if state2 = FUTURE_COMPLETED then
             let w2a = upd base (\<lambda>b. b\<lparr>ext := SelectExt (self2\<lparr>which_completed := SELECT_COMPLETED_FUT2\<rparr>)\<rparr>) w2
             in Inr (Some FUTURE_COMPLETED,
                     upd base (\<lambda>b. b\<lparr>ok := ok (heap w2a (select_fut2 self2))\<rparr>) w2a,
                     [(Fut2, select_fut2 self, state2)])
           else if state2 = FUTURE_FAILURE then
             Inr (None,
                  upd base (\<lambda>b. b\<lparr>ext := SelectExt (self2\<lparr>which_completed :=
                    (if which_completed self2 = SELECT_FAILED_FUT1 then SELECT_FAILED_BOTH
                     else SELECT_FAILED_FUT2)\<rparr>)\<rparr>) w2,
                  [(Fut2, select_fut2 self, state2)])
           else Inr (None, w2, [(Fut2, select_fut2 self, state2)])))
       else Inr (None, w, []))"

definition select_progress :: "'k call \<Rightarrow> fid \<Rightarrow> Waker \<Rightarrow> 'k world \<Rightarrow> 'k progress_result" where
  "select_progress call base waker w =
     bind_res (as_select w base) (\<lambda>self.
       if which_completed self = SELECT_COMPLETED_FUT1 then
         Inr (FUTURE_COMPLETED, upd base (\<lambda>b. b\<lparr>ok := ok (heap w (select_fut1 self))\<rparr>) w, [])
       else if which_completed self = SELECT_COMPLETED_FUT2 then
         Inr (FUTURE_COMPLETED, upd base (\<lambda>b. b\<lparr>ok := ok (heap w (select_fut2 self))\<rparr>) w, [])
       else if which_completed self = SELECT_FAILED_BOTH then
         Inr (FUTURE_FAILURE, upd base (\<lambda>b. b\<lparr>errcode := errcode (heap w (select_fut1 self))\<rparr>) w, [])
       else
         bind_res (select_first call base waker w) (\<lambda>(r1, w1, tr1).
           case r1 of
             Some state \<Rightarrow> Inr (state, w1, tr1)
           | None \<Rightarrow>
               bind_res (select_second call base waker w1) (\<lambda>(r2, w2, tr2).
                 case r2 of
                   Some state \<Rightarrow> Inr (state, w2, tr1 @ tr2)
                 | None \<Rightarrow> Inr (FUTURE_PENDING, w2, tr1 @ tr2))))"

definition future_select :: "Future \<Rightarrow> fid \<Rightarrow> fid \<Rightarrow> Future" where
  "future_select junk fut1 fut2 =
     junk\<lparr>progress := select_progress_fn,
          ext := SelectExt \<lparr>select_fut1 = fut1, select_fut2 = fut2,
            which_completed = SELECT_COMPLETED_NONE\<rparr>\<rparr>"

subsection \<open>The call through the progress pointer\<close>

text \<open>
  \<^verbatim>\<open>fut->progress(fut, mio, waker)\<close> runs the function the member \<^verbatim>\<open>progress\<close> points
  to: one of the three above, whose own indirect calls do the same, or a leaf's, a
  parameter. The nesting of combinators is bounded by fuel.
\<close>

definition forget_calls :: "'k progress_result \<Rightarrow> error + (FutureState \<times> 'k world)" where
  "forget_calls r = bind_res r (\<lambda>(state, w, tr). Inr (state, w))"

fun progress_call :: "ErrCodes \<Rightarrow> (nat \<Rightarrow> 'k call) \<Rightarrow> nat \<Rightarrow> 'k call" where
  "progress_call E leaves 0 fut waker w = Inl OutOfFuel"
| "progress_call E leaves (Suc n) fut waker w =
     (case progress (heap w fut) of
        then_progress_fn \<Rightarrow> forget_calls (then_progress E (progress_call E leaves n) fut waker w)
      | join_progress_fn \<Rightarrow> forget_calls (join_progress E (progress_call E leaves n) fut waker w)
      | select_progress_fn \<Rightarrow> forget_calls (select_progress (progress_call E leaves n) fut waker w)
      | leaf_progress_fn l \<Rightarrow> leaves l fut waker w)"

section \<open>What a progress function may do to the executor\<close>

text \<open>
  \<^verbatim>\<open>struct Executor\<close> and \<^verbatim>\<open>struct FutQue\<close> are defined in executor.c, and
  \<^verbatim>\<open>struct Mio\<close> in mio.c: code outside reaches the queue and the registration
  counter through \<^verbatim>\<open>executor_spawn\<close>, \<^verbatim>\<open>waker_wake\<close>, \<^verbatim>\<open>mio_register\<close> and
  \<^verbatim>\<open>mio_unregister\<close> only. \<open>api_steps K w w'\<close>: the world \<open>w'\<close> comes from \<open>w\<close> by
  such calls and by writes to the futures and the kernel. \<open>api_only K call\<close>: every
  progress function called through \<open>call\<close> does no more than that.
\<close>

inductive api_steps :: "'k Kernel \<Rightarrow> 'k world \<Rightarrow> 'k world \<Rightarrow> bool" for K w where
  api_refl: "api_steps K w w"
| api_spawn: "api_steps K w w1 \<Longrightarrow> api_steps K w (executor_spawn w1 fut)"
| api_register: "api_steps K w w1 \<Longrightarrow> api_steps K w (snd (mio_register K w1 fd evs waker))"
| api_unregister: "api_steps K w w1 \<Longrightarrow> api_steps K w (snd (mio_unregister K w1 fd))"
| api_memory: "api_steps K w w1 \<Longrightarrow> api_steps K w (w1\<lparr>heap := h, kern := k\<rparr>)"

definition api_only :: "'k Kernel \<Rightarrow> 'k call \<Rightarrow> bool" where
  "api_only K call =
     (\<forall>fut waker w state w'. call fut waker w = Inr (state, w') \<longrightarrow> api_steps K w w')"

text \<open>
  A future waits in a trace when a spawn that found room for it is not followed by a
  call of its \<^verbatim>\<open>progress\<close>. The invariant of the drive loop: every future that waits
  is in the queue.
\<close>

definition waiting :: "event list \<Rightarrow> fid \<Rightarrow> bool" where
  "waiting tr f = (\<exists>xs ys. tr = xs @ Spawned f True # ys \<and> Progressed f \<notin> set ys)"

definition run_inv :: "'k world \<Rightarrow> bool" where
  "run_inv w = (que_inv (que w) \<and> (\<forall>f. waiting (trace w) f \<longrightarrow> Some f \<in> set (contents (que w))))"

section \<open>A kernel and a leaf future for the examples\<close>

text \<open>
  The state of this kernel is the interest list of the one epoll instance. Adding a
  descriptor twice and deleting one that is not there fail; a wait for no event
  fails, and otherwise returns every registered descriptor as ready, and never returns
  when there is none.
\<close>

definition demo_kernel :: "(int \<times> epoll_event) list Kernel" where
  "demo_kernel =
     \<lparr>epoll_create1 = (\<lambda>k flags. (3, k)),
      epoll_ctl = (\<lambda>k epfd op fd ev.
        case op of
          EPOLL_CTL_ADD \<Rightarrow>
            (case ev of
               None \<Rightarrow> (- 1, k)
             | Some e \<Rightarrow> if fd < 0 \<or> fd \<in> set (map fst k) then (- 1, k) else (0, k @ [(fd, e)]))
        | EPOLL_CTL_DEL \<Rightarrow>
            if fd \<in> set (map fst k) then (0, filter (\<lambda>p. fst p \<noteq> fd) k) else (- 1, k)),
      epoll_wait = (\<lambda>k epfd buf maxevents timeout.
        if maxevents = 0 then Some (- 1, buf, k)
        else if k = [] then None
        else
          let evs = take maxevents (map snd k)
          in Some (int (length evs), evs @ drop (length evs) buf, k))\<rparr>"

definition demo_heap :: "fid \<Rightarrow> Future" where
  "demo_heap = (\<lambda>p. \<lparr>progress = leaf_progress_fn 0, is_active = False, arg = NULL, ok = NULL,
      errcode = FUTURE_SUCCESS, ext = LeafExt\<rparr>)"

text \<open>
  A leaf as in scenario 9 of the specification: its first progress registers the
  descriptor of its own number and returns Pending (Failure when the registration
  fails); the next one unregisters it and returns Completed.
\<close>

definition reader_leaf :: "(int \<times> epoll_event) list call" where
  "reader_leaf fut waker w =
     (if arg (heap w fut) = NULL then
        case mio_register demo_kernel w (int fut) 1 waker of (r, w1) \<Rightarrow>
          if r = - 1 then Inr (FUTURE_FAILURE, upd fut (\<lambda>b. b\<lparr>errcode := 1\<rparr>) w1)
          else Inr (FUTURE_PENDING, upd fut (\<lambda>b. b\<lparr>arg := 1\<rparr>) w1)
      else
        case mio_unregister demo_kernel w (int fut) of (r, w1) \<Rightarrow>
          Inr (FUTURE_COMPLETED, upd fut (\<lambda>b. b\<lparr>ok := 42\<rparr>) w1))"


section \<open>Interleavings of spawns, wakes and pops\<close>

text \<open>
  The operations that change the ready queue: \<^verbatim>\<open>executor_spawn\<close>, \<^verbatim>\<open>waker_wake\<close> and
  the pop of the drive loop. \<open>fresh_ops w ops\<close>: each spawn and each wake of \<open>ops\<close>
  names a future that no slot of the queue holds at that moment.
\<close>

datatype exec_op = OpSpawn fid | OpWake Waker | OpPop

fun exec_ops :: "'k world \<Rightarrow> exec_op list \<Rightarrow> 'k world" where
  "exec_ops w [] = w"
| "exec_ops w (OpSpawn fut # ops) = exec_ops (executor_spawn w fut) ops"
| "exec_ops w (OpWake waker # ops) = exec_ops (waker_wake w waker) ops"
| "exec_ops w (OpPop # ops) = exec_ops (w\<lparr>que := snd (pop (que w))\<rparr>) ops"

fun fresh_ops :: "'k world \<Rightarrow> exec_op list \<Rightarrow> bool" where
  "fresh_ops w [] = True"
| "fresh_ops w (OpSpawn fut # ops) =
     (Some fut \<notin> set (contents (que w)) \<and> fresh_ops (executor_spawn w fut) ops)"
| "fresh_ops w (OpWake waker # ops) =
     (Some (future waker) \<notin> set (contents (que w)) \<and> fresh_ops (waker_wake w waker) ops)"
| "fresh_ops w (OpPop # ops) = fresh_ops (w\<lparr>que := snd (pop (que w))\<rparr>) ops"

text \<open>
  The contract of \<^verbatim>\<open>epoll_wait\<close> with timeout -1: it returns -1, or the number of
  ready descriptors, at least one.
\<close>

definition waits_for_event :: "'k Kernel \<Rightarrow> bool" where
  "waits_for_event K =
     (\<forall>k epfd buf m n buf' k'.
        epoll_wait K k epfd buf m (- 1) = Some (n, buf', k') \<longrightarrow> n = - 1 \<or> 1 \<le> n)"


section \<open>Sequences of progress calls on one combinator\<close>

text \<open>
  The frame of a combinator: the members that follow its base (\<^verbatim>\<open>fut1\<close>, \<^verbatim>\<open>fut2\<close>
  and the state) are its own, and the progress function of a child does not write
  them. \<open>framed base call\<close> is \<open>call\<close> with that checked at each call made: a call
  that returns having changed the members of the combinator at \<open>base\<close> ends the run
  with \<open>WroteMembers\<close>; every other call is the call through \<open>call\<close>, whatever future
  it progresses, a combinator's or a leaf's. \<open>kept base between\<close> is the same check
  on what runs between two calls of the combinator's \<^verbatim>\<open>progress\<close>. \<open>cut_off r' r\<close>:
  the result \<open>r'\<close> is \<open>r\<close>, or the check has ended the run.
\<close>

definition framed :: "fid \<Rightarrow> 'k call \<Rightarrow> 'k call" where
  "framed base call fut waker w =
     bind_res (call fut waker w) (\<lambda>(state, w').
       if ext (heap w' base) = ext (heap w base) then Inr (state, w') else Inl WroteMembers)"

definition kept :: "fid \<Rightarrow> ('k world \<Rightarrow> error + 'k world) \<Rightarrow> 'k world \<Rightarrow> error + 'k world" where
  "kept base between w =
     bind_res (between w) (\<lambda>w'.
       if ext (heap w' base) = ext (heap w base) then Inr w' else Inl WroteMembers)"

definition cut_off :: "error + 'a \<Rightarrow> error + 'a \<Rightarrow> bool" where
  "cut_off r' r = (r' = r \<or> r' = Inl WroteMembers)"

text \<open>
  \<open>drive step between n\<close> calls the progress function \<open>step\<close> again while it returns
  Pending, at most \<open>n\<close> times, with whatever else happens between two calls
  (\<open>between\<close>: it changes the world, or does not return), and collects the calls
  made to the children.
\<close>

fun drive :: "('k world \<Rightarrow> 'k progress_result) \<Rightarrow> ('k world \<Rightarrow> error + 'k world) \<Rightarrow> nat \<Rightarrow> 'k world \<Rightarrow> 'k progress_result" where
  "drive step between 0 w = Inr (FUTURE_PENDING, w, [])"
| "drive step between (Suc n) w =
     bind_res (step w) (\<lambda>(state, w1, tr).
       if state = FUTURE_PENDING then
         bind_res (between w1) (\<lambda>w2.
         bind_res (drive step between n w2) (\<lambda>(state', w', tr'). Inr (state', w', tr @ tr')))
       else Inr (state, w1, tr))"

text \<open>
  The order of calls the specification allows to a ThenFuture (section 3), written
  from its words: the first future is called only while it has not completed, the
  second only after the first has returned Completed. The result is the flag after
  the calls, or nothing when a call is out of order.
\<close>

fun then_calls :: "fid \<Rightarrow> fid \<Rightarrow> bool \<Rightarrow> calls \<Rightarrow> bool option" where
  "then_calls f1 f2 done [] = Some done"
| "then_calls f1 f2 done ((Fut1, f, s) # tr) =
     (if \<not> done \<and> f = f1 then then_calls f1 f2 (s = FUTURE_COMPLETED) tr else None)"
| "then_calls f1 f2 done ((Fut2, f, s) # tr) =
     (if done \<and> f = f2 then then_calls f1 f2 True tr else None)"


text \<open>
  Error codes, leaves and a world for the examples. A leaf of kind 0 completes with
  its \<^verbatim>\<open>arg\<close> plus 7 as \<^verbatim>\<open>ok\<close>; a leaf of kind 1 fails with code 11; a leaf of
  another kind returns Pending once and completes with 42 at the next call.
\<close>

definition demo_codes :: ErrCodes where
  "demo_codes =
     \<lparr>THEN_FUTURE_ERR_FUT1_FAILED = 1, THEN_FUTURE_ERR_FUT2_FAILED = 2,
      JOIN_FUTURE_ERR_FUT1_FAILED = 3, JOIN_FUTURE_ERR_FUT2_FAILED = 4,
      JOIN_FUTURE_ERR_BOTH_FUTS_FAILED = 5\<rparr>"

definition demo_leaf :: "'k call" where
  "demo_leaf fut waker w =
     (case progress (heap w fut) of
        leaf_progress_fn l \<Rightarrow>
          if l = 0 then Inr (FUTURE_COMPLETED, upd fut (\<lambda>b. b\<lparr>ok := arg b + 7\<rparr>) w)
          else if l = 1 then Inr (FUTURE_FAILURE, upd fut (\<lambda>b. b\<lparr>errcode := 11\<rparr>) w)
          else if ok (heap w fut) = NULL then Inr (FUTURE_PENDING, upd fut (\<lambda>b. b\<lparr>ok := 1\<rparr>) w)
          else Inr (FUTURE_COMPLETED, upd fut (\<lambda>b. b\<lparr>ok := 42\<rparr>) w)
      | _ \<Rightarrow> Inl BadCast)"

definition demo_world :: "(fid \<Rightarrow> Future) \<Rightarrow> unit world" where
  "demo_world h =
     \<lparr>heap = h, que = futque_create 2,
      mio = \<lparr>epoll_fd = 3, registered_count = 0, mio_events = []\<rparr>, kern = (), trace = []\<rparr>"

definition leaf :: "nat \<Rightarrow> Future" where
  "leaf l = \<lparr>progress = leaf_progress_fn l, is_active = False, arg = NULL, ok = NULL,
      errcode = FUTURE_SUCCESS, ext = LeafExt\<rparr>"


text \<open>
  The calls the specification allows to the children of a JoinFuture (section 4.5),
  written from its words, on the pair of the children's recorded states: a child is
  called only while its recorded state is Pending, and the state it returns is
  recorded. The result is the pair after the calls, or nothing when a child is called
  after it has finished.
\<close>

fun join_calls :: "fid \<Rightarrow> fid \<Rightarrow> FutureState \<times> FutureState \<Rightarrow> calls \<Rightarrow> (FutureState \<times> FutureState) option" where
  "join_calls f1 f2 st [] = Some st"
| "join_calls f1 f2 (s1, s2) ((Fut1, f, s) # tr) =
     (if s1 = FUTURE_PENDING \<and> f = f1 then join_calls f1 f2 (s, s2) tr else None)"
| "join_calls f1 f2 (s1, s2) ((Fut2, f, s) # tr) =
     (if s2 = FUTURE_PENDING \<and> f = f2 then join_calls f1 f2 (s1, s) tr else None)"


text \<open>
  The state machine of a SelectFuture as the specification words it (section 4.6):
  the first future is progressed when the tag is None or FailedFut2, the second when
  the tag (after the step of the first) is None or FailedFut1; a child that completes
  makes the tag CompletedFut1 or CompletedFut2, one that fails makes it FailedFut1 or
  FailedFut2, or FailedBoth when the other had failed. \<open>select_calls\<close> is the tag after
  a list of calls, or nothing when a call is made that the tag does not allow.
\<close>

definition progresses_fut1 :: "SelectTag \<Rightarrow> bool" where
  "progresses_fut1 t = (t = SELECT_COMPLETED_NONE \<or> t = SELECT_FAILED_FUT2)"

definition progresses_fut2 :: "SelectTag \<Rightarrow> bool" where
  "progresses_fut2 t = (t = SELECT_COMPLETED_NONE \<or> t = SELECT_FAILED_FUT1)"

fun select_step :: "SelectTag \<Rightarrow> child \<Rightarrow> FutureState \<Rightarrow> SelectTag" where
  "select_step t Fut1 s =
     (if s = FUTURE_COMPLETED then SELECT_COMPLETED_FUT1
      else if s = FUTURE_FAILURE
      then (if t = SELECT_FAILED_FUT2 then SELECT_FAILED_BOTH else SELECT_FAILED_FUT1)
      else t)"
| "select_step t Fut2 s =
     (if s = FUTURE_COMPLETED then SELECT_COMPLETED_FUT2
      else if s = FUTURE_FAILURE
      then (if t = SELECT_FAILED_FUT1 then SELECT_FAILED_BOTH else SELECT_FAILED_FUT2)
      else t)"

fun select_calls :: "fid \<Rightarrow> fid \<Rightarrow> SelectTag \<Rightarrow> calls \<Rightarrow> SelectTag option" where
  "select_calls f1 f2 t [] = Some t"
| "select_calls f1 f2 t ((Fut1, f, s) # tr) =
     (if progresses_fut1 t \<and> f = f1
      then select_calls f1 f2 (select_step t Fut1 s) tr else None)"
| "select_calls f1 f2 t ((Fut2, f, s) # tr) =
     (if progresses_fut2 t \<and> f = f2
      then select_calls f1 f2 (select_step t Fut2 s) tr else None)"


text \<open>
  The child from which a SelectFuture with the tag CompletedFut1 or CompletedFut2
  takes its \<^verbatim>\<open>ok\<close> (lines 147 and 151 of \<^verbatim>\<open>select_progress\<close>).
\<close>

definition winner :: "SelectFuture \<Rightarrow> fid" where
  "winner self =
     (if which_completed self = SELECT_COMPLETED_FUT1 then select_fut1 self else select_fut2 self)"

text \<open>The tag of a SelectFuture, for the examples.\<close>

definition which_completed_of :: "ext \<Rightarrow> SelectTag option" where
  "which_completed_of x = (case x of SelectExt t \<Rightarrow> Some (which_completed t) | _ \<Rightarrow> None)"


section \<open>Combinators over combinators\<close>

text \<open>
  The futures a combinator calls are those its members \<^verbatim>\<open>fut1\<close> and \<^verbatim>\<open>fut2\<close>
  name (\<open>kids\<close>); \<open>reach h a p\<close>: in the heap \<open>h\<close> the future \<open>p\<close> is \<open>a\<close> or is
  named, through any number of combinators, below \<open>a\<close>. \<open>no_cycle h base\<close>: the
  combinator at \<open>base\<close> is not below one of its own children, as in every tree of
  futures. \<open>leaves_keep_members leaves\<close>: the progress functions of the leaves write
  no member that follows the base of a future. \<open>changes_within S w w'\<close>: from \<open>w\<close>
  to \<open>w'\<close> every future names the same children, and only futures of \<open>S\<close> have other
  members than before.
\<close>

definition kids :: "ext \<Rightarrow> fid set" where
  "kids x =
     (case x of
        LeafExt \<Rightarrow> {}
      | ThenExt t \<Rightarrow> {then_fut1 t, then_fut2 t}
      | JoinExt t \<Rightarrow> {join_fut1 t, join_fut2 t}
      | SelectExt t \<Rightarrow> {select_fut1 t, select_fut2 t})"

inductive reach :: "(fid \<Rightarrow> Future) \<Rightarrow> fid \<Rightarrow> fid \<Rightarrow> bool" for h a where
  reach_self: "reach h a a"
| reach_kid: "reach h a p \<Longrightarrow> q \<in> kids (ext (h p)) \<Longrightarrow> reach h a q"

definition leaves_keep_members :: "(nat \<Rightarrow> 'k call) \<Rightarrow> bool" where
  "leaves_keep_members leaves =
     (\<forall>l fut waker w state w' p. leaves l fut waker w = Inr (state, w') \<longrightarrow>
        ext (heap w' p) = ext (heap w p))"

definition changes_within :: "fid set \<Rightarrow> 'k world \<Rightarrow> 'k world \<Rightarrow> bool" where
  "changes_within S w w' =
     (\<forall>p. kids (ext (heap w' p)) = kids (ext (heap w p)) \<and>
          (p \<notin> S \<longrightarrow> ext (heap w' p) = ext (heap w p)))"

definition no_cycle :: "(fid \<Rightarrow> Future) \<Rightarrow> fid \<Rightarrow> bool" where
  "no_cycle h base = (\<forall>q. q \<in> kids (ext (h base)) \<longrightarrow> \<not> reach h q base)"


section \<open>The ready queue is a bounded FIFO\<close>

lemma mod_succ_left: "(a mod m + 1) mod m = (a + 1) mod (m::int)"
  by (simp add: mod_add_left_eq)

lemma mod_shift_front: "((f + 1) mod m + (s - 1)) mod m = (f + s) mod (m::int)"
proof -
  have "((f + 1) mod m + (s - 1)) mod m = ((f + 1) + (s - 1)) mod m"
    by (rule mod_add_left_eq)
  then show ?thesis by simp
qed

lemma to_int_exact: "INT_MIN \<le> x \<Longrightarrow> x \<le> INT_MAX \<Longrightarrow> to_int x = x"
  by (simp add: to_int_def INT_MIN_def INT_MAX_def)

lemma to_int_wraps: "to_int (INT_MAX + 1) = INT_MIN" "to_int (INT_MIN - 1) = INT_MAX"
  by (simp_all add: to_int_def INT_MIN_def INT_MAX_def)

lemma next_slot_exact:
  assumes m: "0 < m" "int m \<le> INT_MAX" and i: "- 1 \<le> i" "i < int m"
  shows "next_slot m i = (i + 1) mod int m"
proof -
  have a: "to_int (i + 1) = i + 1"
    using m i by (intro to_int_exact) (simp_all add: INT_MIN_def INT_MAX_def)
  have b: "to_size_t (i + 1) = nat (i + 1)"
    using m i by (simp add: to_size_t_def INT_MAX_def)
  have c: "int (nat (i + 1) mod m) = (i + 1) mod int m"
    using i by (simp add: zmod_int)
  have d: "0 \<le> (i + 1) mod int m" "(i + 1) mod int m < int m"
    using m by simp_all
  have e: "INT_MIN \<le> (i + 1) mod int m" "(i + 1) mod int m \<le> INT_MAX"
    using d m(2) unfolding INT_MIN_def by linarith+
  have "to_int ((i + 1) mod int m) = (i + 1) mod int m"
    by (rule to_int_exact [OF e])
  then show ?thesis by (simp add: next_slot_def a b c)
qed

lemma que_inv_create: "int n \<le> INT_MAX \<Longrightarrow> que_inv (futque_create n)"
  by (simp add: que_inv_def futque_create_def)

lemma que_inv_back:
  "que_inv q \<Longrightarrow> size_q q \<noteq> max_size q \<Longrightarrow>
     next_slot (max_size q) (back_q q) = (back_q q + 1) mod int (max_size q)"
  by (intro next_slot_exact) (auto simp: que_inv_def)

lemma que_inv_front:
  "que_inv q \<Longrightarrow> size_q q \<noteq> 0 \<Longrightarrow>
     next_slot (max_size q) (front q) = (front q + 1) mod int (max_size q)"
  by (intro next_slot_exact) (auto simp: que_inv_def split: if_splits)

lemma que_inv_push: 
  assumes inv: "que_inv q"
  shows "que_inv (push q fut)"
proof (cases "size_q q = max_size q")
  case True
  then show ?thesis using inv by (simp add: push_def)
next
  case False
  with inv have m: "0 < max_size q" by (auto simp: que_inv_def)
  define b where "b = (back_q q + 1) mod int (max_size q)"
  have b: "0 \<le> b" "b < int (max_size q)"
    using m by (simp_all add: b_def)
  have "(b + 1) mod int (max_size q) = (front q + int (size_q q) + 1) mod int (max_size q)"
    unfolding b_def using inv by (metis que_inv_def mod_succ_left)
  then have e: "(b + 1) mod int (max_size q) = (front q + int (size_q q + 1)) mod int (max_size q)"
    by (simp add: add.commute add.left_commute)
  have p: "push q fut = q\<lparr>back_q := b, futs := (futs q)[nat b := Some fut], size_q := size_q q + 1\<rparr>"
    using False by (simp add: push_def b_def Let_def que_inv_back [OF inv False])
  from inv have i: "length (futs q) = max_size q" "size_q q \<le> max_size q"
    "0 \<le> front q" "front q < int (max_size q)" "int (max_size q) \<le> INT_MAX"
    using m by (simp_all add: que_inv_def)
  show ?thesis unfolding p que_inv_def using i False m b e
    by (simp del: of_nat_Suc of_nat_add)
qed

lemma que_inv_pop:
  assumes inv: "que_inv q"
  shows "que_inv (snd (pop q))"
proof (cases "size_q q = 0")
  case True
  then show ?thesis using inv by (simp add: pop_def isEmpty_def)
next
  case False
  with inv have m: "0 < max_size q" by (auto simp: que_inv_def)
  define f where "f = (front q + 1) mod int (max_size q)"
  have f: "0 \<le> f" "f < int (max_size q)"
    using m by (simp_all add: f_def)
  have s: "int (size_q q - 1) = int (size_q q) - 1"
    using False by (simp add: of_nat_diff)
  have e: "(f + int (size_q q - 1)) mod int (max_size q)
        = (front q + int (size_q q)) mod int (max_size q)"
    unfolding f_def s by (rule mod_shift_front)
  have p: "snd (pop q) = q\<lparr>front := f, size_q := size_q q - 1\<rparr>"
    using False by (simp add: pop_def isEmpty_def f_def que_inv_front [OF inv False])
  from inv have i: "length (futs q) = max_size q" "size_q q \<le> max_size q"
    "- 1 \<le> back_q q" "back_q q < int (max_size q)" "int (max_size q) \<le> INT_MAX"
    "(back_q q + 1) mod int (max_size q) =
        (front q + int (size_q q)) mod int (max_size q)"
    using m by (simp_all add: que_inv_def)
  show ?thesis unfolding p que_inv_def using i False m f e
    by simp
qed

lemma length_contents: "length (contents q) = size_q q"
  by (simp add: contents_def)

lemma contents_create: "contents (futque_create n) = []"
  by (simp add: contents_def futque_create_def)

lemma max_size_create: "max_size (futque_create n) = n"
  by (simp add: futque_create_def)

lemma que_inv_bounds:
  "que_inv q \<Longrightarrow> - 1 \<le> back_q q \<and> back_q q < max 1 (int (max_size q)) \<and>
     0 \<le> front q \<and> front q < max 1 (int (max_size q))"
  by (auto simp: que_inv_def split: if_splits)

lemma mod_slots_distinct:
  fixes a i s m :: int
  assumes "0 \<le> i" "i < s" "s < m"
  shows "(a + i) mod m \<noteq> (a + s) mod m"
proof
  assume "(a + i) mod m = (a + s) mod m"
  then have "(a + s) mod m = (a + i) mod m" by simp
  then have "m dvd (a + s) - (a + i)" by (simp only: mod_eq_dvd_iff)
  then have "m dvd s - i" by simp
  moreover have "0 < s - i" "s - i < m" using assms by simp_all
  ultimately show False using zdvd_not_zless by blast
qed

lemma contents_push:
  assumes inv: "que_inv q" and room: "size_q q \<noteq> max_size q"
  shows "contents (push q fut) = contents q @ [Some fut]"
proof -
  from inv room have m: "0 < max_size q" and lt: "size_q q < max_size q"
    and len: "length (futs q) = max_size q"
    by (auto simp: que_inv_def)
  define b where "b = (back_q q + 1) mod int (max_size q)"
  have b: "b = (front q + int (size_q q)) mod int (max_size q)"
    using inv by (simp add: b_def que_inv_def)
  have b0: "0 \<le> b" "b < int (max_size q)" using m by (simp_all add: b_def)
  have p: "push q fut = q\<lparr>back_q := b, futs := (futs q)[nat b := Some fut], size_q := size_q q + 1\<rparr>"
    using room by (simp add: push_def b_def Let_def que_inv_back [OF inv room])
  have old: "(futs q)[nat b := Some fut] ! nat ((front q + int i) mod int (max_size q))
           = futs q ! nat ((front q + int i) mod int (max_size q))"
    if "i < size_q q" for i
  proof -
    have "(front q + int i) mod int (max_size q) \<noteq> b"
      unfolding b using that lt by (intro mod_slots_distinct) simp_all
    moreover have "0 \<le> (front q + int i) mod int (max_size q)" using m by simp
    ultimately have "nat ((front q + int i) mod int (max_size q)) \<noteq> nat b"
      using b0 by (simp add: nat_eq_iff)
    then show ?thesis by simp
  qed
  have new: "(futs q)[nat b := Some fut] ! nat ((front q + int (size_q q)) mod int (max_size q))
       = Some fut"
    using b b0 len by (simp add: nat_less_iff)
  show ?thesis
    unfolding p contents_def using old new by simp
qed

lemma pop_nonempty:
  assumes inv: "que_inv q" and ne: "size_q q \<noteq> 0"
  shows "contents q = fst (pop q) # contents (snd (pop q))"
proof -
  from inv ne have m: "0 < max_size q" by (auto simp: que_inv_def)
  have p: "pop q = (futs q ! nat (front q),
     q\<lparr>front := (front q + 1) mod int (max_size q), size_q := size_q q - 1\<rparr>)"
    using ne by (simp add: pop_def isEmpty_def que_inv_front [OF inv ne])
  obtain k where k: "size_q q = Suc k" using ne by (cases "size_q q") auto
  have shift: "((front q + 1) mod int (max_size q) + int i) mod int (max_size q)
       = (front q + int (Suc i)) mod int (max_size q)" for i
  proof -
    have "((front q + 1) mod int (max_size q) + int i) mod int (max_size q)
       = ((front q + 1) + int i) mod int (max_size q)" by (rule mod_add_left_eq)
    then show ?thesis by (simp add: add.assoc)
  qed
  have hd: "(front q + int 0) mod int (max_size q) = front q"
    using inv m by (simp add: que_inv_def)
  have "contents q =
      futs q ! nat ((front q + int 0) mod int (max_size q)) #
      map (\<lambda>i. futs q ! nat ((front q + int (Suc i)) mod int (max_size q))) [0..<k]"
    unfolding contents_def k by (rule map_upt_Suc)
  then show ?thesis
    unfolding p hd by (simp add: contents_def k shift del: of_nat_Suc)
qed

lemma pop_empty: "size_q q = 0 \<Longrightarrow> pop q = (None, q)"
  by (simp add: pop_def isEmpty_def)

lemma push_full: "size_q q = max_size q \<Longrightarrow> push q fut = q"
  by (simp add: push_def)

lemma max_size_push: "max_size (push q fut) = max_size q"
  by (simp add: push_def Let_def)

lemma max_size_pop: "max_size (snd (pop q)) = max_size q"
  by (simp add: pop_def)

lemma run_ops_refines:
  "que_inv q \<Longrightarrow> max_size q = C \<Longrightarrow> contents q = map Some xs \<Longrightarrow>
   snd (run_ops q ops) = snd (fifo_spec C xs ops) \<and>
   contents (fst (run_ops q ops)) = map Some (fst (fifo_spec C xs ops)) \<and>
   que_inv (fst (run_ops q ops)) \<and> max_size (fst (run_ops q ops)) = C"
proof (induction ops arbitrary: q xs)
  case Nil
  then show ?case by simp
next
  case (Cons a ops)
  have sz: "size_q q = length xs"
    using Cons.prems(3) length_contents [of q] by simp
  show ?case
  proof (cases a)
    case (Push fut)
    show ?thesis
    proof (cases "size_q q = max_size q")
      case True
      then have "push q fut = q" by (rule push_full)
      with True Cons.IH [OF Cons.prems] sz Cons.prems(2) Push show ?thesis by simp
    next
      case False
      have c: "contents (push q fut) = map Some (xs @ [fut])"
        using contents_push [OF Cons.prems(1) False] Cons.prems(3) by simp
      have "max_size (push q fut) = C" using Cons.prems(2) by (simp add: max_size_push)
      from Cons.IH [OF que_inv_push [OF Cons.prems(1)] this c] False sz Cons.prems(2) Push
      show ?thesis by simp
    qed
  next
    case Pop
    show ?thesis
    proof (cases xs)
      case Nil
      then have "pop q = (None, q)" using sz by (simp add: pop_empty)
      with Cons.IH [OF Cons.prems] Nil Pop show ?thesis
        by (auto split: prod.splits)
    next
      case (Cons x xs')
      then have ne: "size_q q \<noteq> 0" using sz by simp
      obtain r q' where p: "pop q = (r, q')" by (cases "pop q")
      from pop_nonempty [OF Cons.prems(1) ne] p Cons.prems(3) Cons
      have r: "r = Some x" and c: "contents q' = map Some xs'" by simp_all
      have i: "que_inv q'" using que_inv_pop [OF Cons.prems(1)] p by simp
      have m: "max_size q' = C" using max_size_pop [of q] p Cons.prems(2) by simp
      from Cons.IH [OF i m c] p r Cons Pop show ?thesis
        by (auto split: prod.splits)
    qed
  qed
qed

text \<open>
  C8. For every capacity \<open>C\<close> up to \<open>INT_MAX\<close>, the largest value the \<^verbatim>\<open>int\<close>
  indices \<^verbatim>\<open>front\<close> and \<^verbatim>\<open>back\<close> can hold, and every sequence of pushes and pops on
  the queue that \<^verbatim>\<open>futque_create\<close> returns: the pops return what the specification's FIFO list
  returns (the futures in the order of their pushes, none on the empty queue, a push
  on \<open>C\<close> held futures dropped); the queue holds the futures of that list, in order,
  and never more than \<open>C\<close>; \<^verbatim>\<open>pop\<close> on the empty queue returns the null pointer and
  leaves the queue as it is; \<^verbatim>\<open>push\<close> on a queue of \<open>C\<close> futures leaves the queue as
  it is.
\<close>

theorem ready_queue_fifo:
  assumes "int C \<le> INT_MAX"
  shows
  "snd (run_ops (futque_create C) ops) = snd (fifo_spec C [] ops) \<and>
   contents (fst (run_ops (futque_create C) ops)) = map Some (fst (fifo_spec C [] ops)) \<and>
   size_q (fst (run_ops (futque_create C) ops)) = length (fst (fifo_spec C [] ops)) \<and>
   size_q (fst (run_ops (futque_create C) ops)) \<le> C \<and>
   max_size (fst (run_ops (futque_create C) ops)) = C \<and>
   (size_q (fst (run_ops (futque_create C) ops)) = 0 \<longrightarrow>
      pop (fst (run_ops (futque_create C) ops)) = (None, fst (run_ops (futque_create C) ops))) \<and>
   (size_q (fst (run_ops (futque_create C) ops)) = C \<longrightarrow>
      push (fst (run_ops (futque_create C) ops)) fut = fst (run_ops (futque_create C) ops))"
proof -
  define q where "q = fst (run_ops (futque_create C) ops)"
  have r: "snd (run_ops (futque_create C) ops) = snd (fifo_spec C [] ops)"
    "contents q = map Some (fst (fifo_spec C [] ops))" "que_inv q" "max_size q = C"
    unfolding q_def
    using run_ops_refines [OF que_inv_create [OF assms], where C = C and xs = "[]" and ops = ops]
    by (simp_all add: contents_create max_size_create)
  have s: "size_q q = length (fst (fifo_spec C [] ops))"
    using r(2) length_contents [of q] by simp
  have le: "size_q q \<le> C" using r(3,4) by (simp add: que_inv_def)
  have e: "size_q q = 0 \<longrightarrow> pop q = (None, q)" by (simp add: pop_empty)
  have f: "size_q q = C \<longrightarrow> push q fut = q" using r(4) by (simp add: push_full)
  from r(1,2,4) s le e f show ?thesis unfolding q_def by simp
qed

theorem ready_queue_fifo_witness:
  "int 2 \<le> INT_MAX \<and>
   snd (run_ops (futque_create 2) [Push 1, Push 2, Push 3, Pop, Pop, Pop]) = [Some 1, Some 2, None] \<and>
   pop (fst (run_ops (futque_create 2) [Push 1, Push 2, Push 3, Pop, Pop, Pop])) =
     (None, fst (run_ops (futque_create 2) [Push 1, Push 2, Push 3, Pop, Pop, Pop])) \<and>
   contents (fst (run_ops (futque_create 2) [Push 1, Push 2])) = [Some 1, Some 2] \<and>
   push (fst (run_ops (futque_create 2) [Push 1, Push 2])) 3 =
     fst (run_ops (futque_create 2) [Push 1, Push 2])"
proof -
  have a: "snd (fifo_spec 2 [] [Push 1, Push 2, Push 3, Pop, Pop, Pop]) = [Some 1, Some 2, None]"
    "fst (fifo_spec 2 [] [Push 1, Push 2, Push 3, Pop, Pop, Pop]) = []"
    "fst (fifo_spec 2 [] [Push 1, Push 2]) = [1, 2]"
    by simp_all
  have b: "int 2 \<le> INT_MAX" by (simp add: INT_MAX_def)
  from ready_queue_fifo [OF b, of "[Push 1, Push 2, Push 3, Pop, Pop, Pop]"]
       ready_queue_fifo [OF b, of "[Push 1, Push 2]" 3] a b
  show ?thesis by simp
qed

section \<open>The registration counter\<close>

text \<open>
  C10. \<^verbatim>\<open>mio_register\<close> returns 0 and has incremented \<^verbatim>\<open>registered_count\<close>, when
  \<^verbatim>\<open>epoll_ctl\<close> did not return -1, or returns -1 and leaves the reactor as it was, when
  it did; \<^verbatim>\<open>mio_unregister\<close> likewise, with a decrement. The increment of a counter
  below \<open>INT_MAX\<close> leaves it one higher, the decrement of a counter above \<open>INT_MIN\<close>
  one lower; at those two values the \<^verbatim>\<open>int\<close> overflows. After a failure
  \<^verbatim>\<open>mio_poll\<close> does what it would have done before the call, on the kernel state the
  failed call left.
\<close>

theorem mio_register_unregister_count:
  "(case mio_register K w fd evs waker of (r, w') \<Rightarrow>
      (r = 0 \<and> fst (epoll_ctl K (kern w) (epoll_fd (mio w)) EPOLL_CTL_ADD fd
                      (Some \<lparr>events = evs, data_ptr = future waker\<rparr>)) \<noteq> - 1 \<and>
       registered_count (mio w') = to_int (registered_count (mio w) + 1) \<and>
       (INT_MIN \<le> registered_count (mio w) \<and> registered_count (mio w) < INT_MAX \<longrightarrow>
          registered_count (mio w') = registered_count (mio w) + 1)) \<or>
      (r = - 1 \<and> fst (epoll_ctl K (kern w) (epoll_fd (mio w)) EPOLL_CTL_ADD fd
                      (Some \<lparr>events = evs, data_ptr = future waker\<rparr>)) = - 1 \<and>
       mio w' = mio w \<and> mio_poll K w' = mio_poll K (w\<lparr>kern := kern w'\<rparr>))) \<and>
   (case mio_unregister K w fd of (r, w') \<Rightarrow>
      (r = 0 \<and> fst (epoll_ctl K (kern w) (epoll_fd (mio w)) EPOLL_CTL_DEL fd None) \<noteq> - 1 \<and>
       registered_count (mio w') = to_int (registered_count (mio w) - 1) \<and>
       (INT_MIN < registered_count (mio w) \<and> registered_count (mio w) \<le> INT_MAX \<longrightarrow>
          registered_count (mio w') = registered_count (mio w) - 1)) \<or>
      (r = - 1 \<and> fst (epoll_ctl K (kern w) (epoll_fd (mio w)) EPOLL_CTL_DEL fd None) = - 1 \<and>
       mio w' = mio w \<and> mio_poll K w' = mio_poll K (w\<lparr>kern := kern w'\<rparr>)))"
proof -
  have "to_int (c + 1) = c + 1" if "INT_MIN \<le> c" "c < INT_MAX" for c
    using that by (intro to_int_exact) simp_all
  moreover have "to_int (c - 1) = c - 1" if "INT_MIN < c" "c \<le> INT_MAX" for c
    using that by (intro to_int_exact) simp_all
  ultimately show ?thesis
    by (simp add: mio_register_def mio_unregister_def Let_def split: prod.splits)
qed

theorem mio_register_unregister_count_witness:
  "fst (mio_register demo_kernel
     \<lparr>heap = demo_heap, que = futque_create 2,
      mio = \<lparr>epoll_fd = 3, registered_count = 0, mio_events = []\<rparr>, kern = [], trace = []\<rparr>
     5 1 \<lparr>future = 1\<rparr>) = 0 \<and>
   registered_count (mio (snd (mio_register demo_kernel
     \<lparr>heap = demo_heap, que = futque_create 2,
      mio = \<lparr>epoll_fd = 3, registered_count = 0, mio_events = []\<rparr>, kern = [], trace = []\<rparr>
     5 1 \<lparr>future = 1\<rparr>))) = 1 \<and>
   fst (mio_unregister demo_kernel
     \<lparr>heap = demo_heap, que = futque_create 2,
      mio = \<lparr>epoll_fd = 3, registered_count = 0, mio_events = []\<rparr>, kern = [], trace = []\<rparr>
     5) = - 1 \<and>
   registered_count (mio (snd (mio_unregister demo_kernel
     \<lparr>heap = demo_heap, que = futque_create 2,
      mio = \<lparr>epoll_fd = 3, registered_count = 0, mio_events = []\<rparr>, kern = [], trace = []\<rparr>
     5))) = 0"
  using mio_register_unregister_count [of demo_kernel
     "\<lparr>heap = demo_heap, que = futque_create 2,
      mio = \<lparr>epoll_fd = 3, registered_count = 0, mio_events = []\<rparr>, kern = [], trace = []\<rparr>"
     5 1 "\<lparr>future = 1\<rparr>"]
  by (simp add: mio_register_def mio_unregister_def demo_kernel_def to_int_def INT_MIN_def
        INT_MAX_def split: prod.splits)

section \<open>The drive loop serves every queued future\<close>

lemma waiting_Nil: "\<not> waiting [] f"
  by (simp add: waiting_def)

lemma waiting_snoc:
  "waiting (tr @ [e]) f \<longleftrightarrow> (waiting tr f \<and> e \<noteq> Progressed f) \<or> e = Spawned f True"
proof
  assume "waiting (tr @ [e]) f"
  then obtain xs ys where d: "tr @ [e] = xs @ Spawned f True # ys" and n: "Progressed f \<notin> set ys"
    unfolding waiting_def by blast
  show "(waiting tr f \<and> e \<noteq> Progressed f) \<or> e = Spawned f True"
  proof (cases ys rule: rev_cases)
    case Nil
    with d show ?thesis by simp
  next
    case (snoc ys' y)
    with d have "tr = xs @ Spawned f True # ys'" "e = y" by simp_all
    with n snoc show ?thesis unfolding waiting_def by auto
  qed
next
  assume "(waiting tr f \<and> e \<noteq> Progressed f) \<or> e = Spawned f True"
  then show "waiting (tr @ [e]) f"
  proof
    assume a: "waiting tr f \<and> e \<noteq> Progressed f"
    then obtain xs ys where "tr = xs @ Spawned f True # ys" "Progressed f \<notin> set ys"
      unfolding waiting_def by blast
    with a have "tr @ [e] = xs @ Spawned f True # (ys @ [e]) \<and> Progressed f \<notin> set (ys @ [e])"
      by auto
    then show ?thesis unfolding waiting_def by blast
  next
    assume "e = Spawned f True"
    then have "tr @ [e] = tr @ Spawned f True # [] \<and> Progressed f \<notin> set []" by simp
    then show ?thesis unfolding waiting_def by blast
  qed
qed

lemma set_contents_push: "que_inv q \<Longrightarrow> set (contents q) \<subseteq> set (contents (push q fut))"
  by (cases "size_q q = max_size q") (auto simp: push_full contents_push)

lemma in_contents_push:
  "que_inv q \<Longrightarrow> size_q q \<noteq> max_size q \<Longrightarrow> Some fut \<in> set (contents (push q fut))"
  by (simp add: contents_push)

lemma run_inv_spawn: 
  assumes "run_inv w" shows "run_inv (executor_spawn w fut)"
proof -
  from assms have q: "que_inv (que w)" by (simp add: run_inv_def)
  have "Some f \<in> set (contents (push (que w) fut))"
    if "waiting (trace w @ [Spawned fut (size_q (que w) \<noteq> max_size (que w))]) f" for f
  proof -
    from that have "waiting (trace w) f \<or> (f = fut \<and> size_q (que w) \<noteq> max_size (que w))"
      by (auto simp: waiting_snoc)
    then show ?thesis
      using assms set_contents_push [OF q, of fut] in_contents_push [OF q, of fut]
      by (auto simp: run_inv_def)
  qed
  then show ?thesis using q by (simp add: run_inv_def executor_spawn_def que_inv_push)
qed

lemma que_register [simp]: "que (snd (mio_register K w fd evs waker)) = que w"
  "trace (snd (mio_register K w fd evs waker)) = trace w"
  by (simp_all add: mio_register_def Let_def split: prod.splits)

lemma que_unregister [simp]: "que (snd (mio_unregister K w fd)) = que w"
  "trace (snd (mio_unregister K w fd)) = trace w"
  by (simp_all add: mio_unregister_def split: prod.splits)

lemma run_inv_cong: "que w' = que w \<Longrightarrow> trace w' = trace w \<Longrightarrow> run_inv w' = run_inv w"
  by (simp add: run_inv_def)

lemma run_inv_api: "api_steps K w w' \<Longrightarrow> run_inv w \<Longrightarrow> run_inv w'"
proof (induction rule: api_steps.induct)
  case api_refl
  then show ?case .
next
  case (api_spawn w1 fut)
  then show ?case by (simp add: run_inv_spawn)
next
  case (api_register w1 fd evs waker)
  then show ?case by (simp add: run_inv_cong [of "snd (mio_register K w1 fd evs waker)" w1])
next
  case (api_unregister w1 fd)
  then show ?case by (simp add: run_inv_cong [of "snd (mio_unregister K w1 fd)" w1])
next
  case (api_memory w1 h k)
  then show ?case by (simp add: run_inv_def)
qed

lemma bind_res_Inr:
  "bind_res m f = Inr y \<longleftrightarrow> (\<exists>x. m = Inr x \<and> f x = Inr y)"
  by (cases m) (simp_all add: bind_res_def)

lemma max_size_spawn [simp]: "max_size (que (executor_spawn w fut)) = max_size (que w)"
  by (simp add: executor_spawn_def max_size_push)

lemma max_size_api: "api_steps K w w' \<Longrightarrow> max_size (que w') = max_size (que w)"
  by (induction rule: api_steps.induct) simp_all

lemma run_inv_popped:
  assumes inv: "run_inv w" and ne: "\<not> isEmpty (que w)" and p: "pop (que w) = (Some fut, q)"
  shows "run_inv (w\<lparr>que := q, trace := trace w @ [Progressed fut]\<rparr>)"
proof -
  from inv have qi: "que_inv (que w)" by (simp add: run_inv_def)
  from ne have s: "size_q (que w) \<noteq> 0" by (simp add: isEmpty_def)
  from pop_nonempty [OF qi s] p have c: "contents (que w) = Some fut # contents q" by simp
  from que_inv_pop [OF qi] p have "que_inv q" by simp
  moreover have "Some f \<in> set (contents q)" if "waiting (trace w @ [Progressed fut]) f" for f
  proof -
    from that have "waiting (trace w) f" "f \<noteq> fut" by (auto simp: waiting_snoc)
    with inv c show ?thesis by (auto simp: run_inv_def)
  qed
  ultimately show ?thesis by (simp add: run_inv_def)
qed

lemma drain_inv:
  "api_only K call \<Longrightarrow> run_inv w \<Longrightarrow> drain call n w = Inr w' \<Longrightarrow>
     run_inv w' \<and> isEmpty (que w') \<and> max_size (que w') = max_size (que w)"
proof (induction n arbitrary: w)
  case 0
  then show ?case by simp
next
  case (Suc n)
  show ?case
  proof (cases "isEmpty (que w)")
    case True
    with Suc.prems show ?thesis by simp
  next
    case False
    obtain r q where p: "pop (que w) = (r, q)" by (cases "pop (que w)")
    from Suc.prems(3) False p obtain fut where r: "r = Some fut"
      by (cases r) simp_all
    define w0 where "w0 = w\<lparr>que := q, trace := trace w @ [Progressed fut]\<rparr>"
    from Suc.prems(3) False p r obtain state w1 where
      c: "call fut \<lparr>future = fut\<rparr> w0 = Inr (state, w1)" and
      d: "drain call n (if state = FUTURE_COMPLETED \<or> state = FUTURE_FAILURE
                    then w1\<lparr>heap := (heap w1)(fut := (heap w1 fut)\<lparr>is_active := False\<rparr>)\<rparr>
                    else w1) = Inr w'"
      by (auto simp: bind_res_Inr w0_def)
    have i0: "run_inv w0" unfolding w0_def using Suc.prems(2) False p r by (simp add: run_inv_popped)
    from c Suc.prems(1) have a: "api_steps K w0 w1" by (auto simp: api_only_def)
    have i1: "run_inv w1" using run_inv_api [OF a i0] .
    have m0: "max_size (que w0) = max_size (que w)"
      using max_size_pop [of "que w"] p by (simp add: w0_def)
    have m1: "max_size (que w1) = max_size (que w)" using max_size_api [OF a] m0 by simp
    define w2 where "w2 = (if state = FUTURE_COMPLETED \<or> state = FUTURE_FAILURE
                    then w1\<lparr>heap := (heap w1)(fut := (heap w1 fut)\<lparr>is_active := False\<rparr>)\<rparr>
                    else w1)"
    have i2: "run_inv w2" "max_size (que w2) = max_size (que w)"
      using i1 m1 by (simp_all add: w2_def run_inv_def)
    from Suc.IH [OF Suc.prems(1) i2(1)] d i2(2) show ?thesis by (simp add: w2_def)
  qed
qed

lemma run_inv_wakes:
  "run_inv w \<Longrightarrow> run_inv (foldl (\<lambda>w' ev. waker_wake w' \<lparr>future = data_ptr ev\<rparr>) w evs)"
  by (induction evs arbitrary: w) (simp_all add: waker_wake_def run_inv_spawn)

lemma max_size_wakes:
  "max_size (que (foldl (\<lambda>w' ev. waker_wake w' \<lparr>future = data_ptr ev\<rparr>) w evs)) = max_size (que w)"
  by (induction evs arbitrary: w) (simp_all add: waker_wake_def)

lemma mio_poll_inv:
  assumes "run_inv w" and "mio_poll K w = Inr w'"
  shows "run_inv w' \<and> max_size (que w') = max_size (que w)"
proof (cases "registered_count (mio w) = 0")
  case True
  with assms show ?thesis by (simp add: mio_poll_def)
next
  case False
  with assms(2) obtain n buf k' where
    w': "w' = foldl (\<lambda>w' ev. waker_wake w' \<lparr>future = data_ptr ev\<rparr>)
                     (w\<lparr>kern := k', mio := (mio w)\<lparr>mio_events := buf\<rparr>\<rparr>) (take (nat n) buf)"
    by (auto simp: mio_poll_def split: option.splits if_splits)
  have "run_inv (w\<lparr>kern := k', mio := (mio w)\<lparr>mio_events := buf\<rparr>\<rparr>)"
    using assms(1) by (simp add: run_inv_def)
  then show ?thesis unfolding w' by (simp add: run_inv_wakes max_size_wakes)
qed

lemma executor_run_inv:
  "api_only K call \<Longrightarrow> run_inv w \<Longrightarrow> executor_run K call n w = Inr w' \<Longrightarrow>
     run_inv w' \<and> isEmpty (que w')"
proof (induction n arbitrary: w)
  case 0
  then show ?case by simp
next
  case (Suc n)
  show ?case
  proof (cases "isEmpty (que w)")
    case True
    with Suc.prems show ?thesis by simp
  next
    case False
    with Suc.prems(3) obtain w1 w2 where d: "drain call n w = Inr w1"
      and p: "mio_poll K w1 = Inr w2" and r: "executor_run K call n w2 = Inr w'"
      by (auto simp: bind_res_Inr)
    from drain_inv [OF Suc.prems(1,2) d] have "run_inv w1" by simp
    from mio_poll_inv [OF this p] have "run_inv w2" by simp
    from Suc.IH [OF Suc.prems(1) this r] show ?thesis .
  qed
qed

lemma run_inv_create:
  "executor_create K cap h k junk = Inr w \<Longrightarrow> int cap \<le> INT_MAX \<Longrightarrow> run_inv w"
  by (auto simp: executor_create_def bind_res_Inr run_inv_def que_inv_create waiting_Nil)


lemma api_steps_upd: "api_steps K w w1 \<Longrightarrow> api_steps K w (upd p f w1)"
proof -
  assume a: "api_steps K w w1"
  have "upd p f w1 = w1\<lparr>heap := (heap w1)(p := f (heap w1 p)), kern := kern w1\<rparr>"
    by (simp add: upd_def)
  then show ?thesis
    using api_memory [OF a, where h = "(heap w1)(p := f (heap w1 p))" and k = "kern w1"] by simp
qed

lemma api_only_reader_leaf: "api_only demo_kernel reader_leaf"
  unfolding api_only_def
proof (intro allI impI)
  fix fut waker w state w'
  assume r: "reader_leaf fut waker w = Inr (state, w')"
  show "api_steps demo_kernel w w'"
  proof (cases "arg (heap w fut) = NULL")
    case True
    with r have "w' = upd fut (\<lambda>b. b\<lparr>errcode := 1\<rparr>) (snd (mio_register demo_kernel w (int fut) 1 waker))
        \<or> w' = upd fut (\<lambda>b. b\<lparr>arg := 1\<rparr>) (snd (mio_register demo_kernel w (int fut) 1 waker))"
      by (auto simp: reader_leaf_def split: prod.splits if_splits)
    then show ?thesis
      using api_steps_upd [OF api_register [OF api_refl]] by metis
  next
    case False
    with r have "w' = upd fut (\<lambda>b. b\<lparr>ok := 42\<rparr>) (snd (mio_unregister demo_kernel w (int fut)))"
      by (auto simp: reader_leaf_def split: prod.splits)
    then show ?thesis
      using api_steps_upd [OF api_unregister [OF api_refl]] by metis
  qed
qed


text \<open>
  C2 (as amended). A future passed to \<^verbatim>\<open>executor_spawn\<close> (or \<^verbatim>\<open>waker_wake\<close>) while the
  ready queue holds fewer futures than its capacity, before \<^verbatim>\<open>executor_run\<close> or during
  it, has its \<^verbatim>\<open>progress\<close> called after that spawn and before \<^verbatim>\<open>executor_run\<close> returns,
  if it returns. In the trace, \<open>Spawned fut True\<close> is such a spawn and \<open>Progressed fut\<close>
  the call. The spawns before the run are any calls of the executor's and the reactor's
  interface on the executor \<^verbatim>\<open>executor_create\<close> returned.
\<close>

theorem spawned_with_room_is_progressed:
  assumes "api_only K call"
    and "executor_create K cap h k junk = Inr w0"
    and "api_steps K w0 w"
    and "executor_run K call n w = Inr w'"
    and "int cap \<le> INT_MAX"
  shows "\<forall>xs ys fut. trace w' = xs @ Spawned fut True # ys \<longrightarrow> Progressed fut \<in> set ys"
proof -
  have "run_inv w" using run_inv_api [OF assms(3) run_inv_create [OF assms(2,5)]] .
  from executor_run_inv [OF assms(1) this assms(4)]
  have i: "run_inv w'" and e: "isEmpty (que w')" by simp_all
  from e have "contents (que w') = []" by (simp add: isEmpty_def contents_def)
  with i have "\<not> waiting (trace w') f" for f by (auto simp: run_inv_def)
  then show ?thesis unfolding waiting_def by blast
qed

theorem spawned_with_room_is_progressed_witness:
  "api_only demo_kernel reader_leaf \<and> int 2 \<le> INT_MAX \<and>
   (case executor_create demo_kernel 2 demo_heap [] [] of
      Inl e \<Rightarrow> False
    | Inr w0 \<Rightarrow>
        (case executor_run demo_kernel reader_leaf 6 (executor_spawn (executor_spawn w0 1) 2) of
           Inl e \<Rightarrow> False
         | Inr w' \<Rightarrow>
             take 2 (trace w') = [Spawned 1 True, Spawned 2 True] \<and>
             Progressed 2 \<in> set (drop 2 (trace w'))))"
proof -
  have ev: "(case executor_create demo_kernel 2 demo_heap [] [] of
      Inl e \<Rightarrow> False
    | Inr w0 \<Rightarrow>
        (case executor_run demo_kernel reader_leaf 6 (executor_spawn (executor_spawn w0 1) 2) of
           Inl e \<Rightarrow> False
         | Inr w' \<Rightarrow> take 2 (trace w') = [Spawned 1 True, Spawned 2 True]))"
    by code_simp
  then obtain w0 w' where c: "executor_create demo_kernel 2 demo_heap [] [] = Inr w0"
    and r: "executor_run demo_kernel reader_leaf 6 (executor_spawn (executor_spawn w0 1) 2) = Inr w'"
    and t: "take 2 (trace w') = [Spawned 1 True, Spawned 2 True]"
    by (auto split: sum.splits)
  have a: "api_steps demo_kernel w0 (executor_spawn (executor_spawn w0 1) 2)"
    by (intro api_spawn api_refl)
  have "trace w' = take 2 (trace w') @ drop 2 (trace w')" by simp
  then have d: "trace w' = [Spawned 1 True] @ Spawned 2 True # drop 2 (trace w')"
    using t by simp
  have b: "int 2 \<le> INT_MAX" by (simp add: INT_MAX_def)
  from spawned_with_room_is_progressed [OF api_only_reader_leaf c a r b] d
  have "Progressed 2 \<in> set (drop 2 (trace w'))" by blast
  with c r t api_only_reader_leaf b show ?thesis by simp
qed

theorem spawned_on_full_queue_counterexample:
  "(case executor_create demo_kernel 1 demo_heap [] [] of
      Inl e \<Rightarrow> Inl e
    | Inr w0 \<Rightarrow>
        (case executor_run demo_kernel reader_leaf 6 (executor_spawn (executor_spawn w0 1) 2) of
           Inl e \<Rightarrow> Inl e
         | Inr w' \<Rightarrow> Inr (trace w'))) =
   Inr [Spawned 1 True, Spawned 2 False, Progressed 1, Spawned 1 True, Progressed 1]"
  by code_simp

section \<open>No future twice in the queue\<close>

lemma distinct_push:
  assumes "que_inv q" "distinct (contents q)" "Some fut \<notin> set (contents q)"
  shows "distinct (contents (push q fut))"
  using assms by (cases "size_q q = max_size q") (simp_all add: push_full contents_push)

lemma distinct_pop:
  assumes "que_inv q" "distinct (contents q)"
  shows "distinct (contents (snd (pop q)))"
proof (cases "size_q q = 0")
  case True
  with assms show ?thesis by (simp add: pop_empty)
next
  case False
  from pop_nonempty [OF assms(1) False] assms(2) show ?thesis by simp
qed

lemma exec_ops_distinct:
  "que_inv (que w) \<Longrightarrow> distinct (contents (que w)) \<Longrightarrow> fresh_ops w ops \<Longrightarrow>
     distinct (contents (que (exec_ops w ops)))"
proof (induction w ops rule: exec_ops.induct)
  case (1 w)
  then show ?case by simp
next
  case (2 w fut ops)
  then show ?case by (simp add: executor_spawn_def que_inv_push distinct_push)
next
  case (3 w waker ops)
  then show ?case by (simp add: waker_wake_def executor_spawn_def que_inv_push distinct_push)
next
  case (4 w ops)
  then show ?case by (simp add: que_inv_pop distinct_pop)
qed


text \<open>
  C3 (as amended). On the executor \<^verbatim>\<open>executor_create\<close> returns, after any sequence of
  \<^verbatim>\<open>executor_spawn\<close> calls, \<^verbatim>\<open>waker_wake\<close> calls and pops in which every spawn and
  every wake names a future that is in no slot of the ready queue at that moment, no
  future occupies more than one slot of the queue. The executor itself never checks.
\<close>

theorem queue_slots_distinct:
  assumes "executor_create K cap h k junk = Inr w0" and "fresh_ops w0 ops"
    and "int cap \<le> INT_MAX"
  shows "distinct (contents (que (exec_ops w0 ops)))"
proof -
  from assms(1) have "que w0 = futque_create cap"
    by (auto simp: executor_create_def bind_res_Inr)
  then have "que_inv (que w0)" "distinct (contents (que w0))"
    by (simp_all add: que_inv_create [OF assms(3)] contents_create)
  then show ?thesis using assms(2) by (rule exec_ops_distinct)
qed

theorem queue_slots_distinct_witness:
  "int 2 \<le> INT_MAX \<and>
   (case executor_create demo_kernel 2 demo_heap [] [] of
      Inl e \<Rightarrow> False
    | Inr w0 \<Rightarrow>
        fresh_ops w0 [OpSpawn 1, OpSpawn 2, OpPop, OpWake \<lparr>future = 1\<rparr>] \<and>
        contents (que (exec_ops w0 [OpSpawn 1, OpSpawn 2, OpPop, OpWake \<lparr>future = 1\<rparr>])) =
          [Some 2, Some 1] \<and>
        distinct (contents (que (exec_ops w0 [OpSpawn 1, OpSpawn 2, OpPop, OpWake \<lparr>future = 1\<rparr>]))))"
proof -
  have "(case executor_create demo_kernel 2 demo_heap [] [] of
      Inl e \<Rightarrow> False
    | Inr w0 \<Rightarrow>
        fresh_ops w0 [OpSpawn 1, OpSpawn 2, OpPop, OpWake \<lparr>future = 1\<rparr>] \<and>
        contents (que (exec_ops w0 [OpSpawn 1, OpSpawn 2, OpPop, OpWake \<lparr>future = 1\<rparr>])) =
          [Some 2, Some 1])"
    by code_simp
  then obtain w0 where c: "executor_create demo_kernel 2 demo_heap [] [] = Inr w0"
    and f: "fresh_ops w0 [OpSpawn 1, OpSpawn 2, OpPop, OpWake \<lparr>future = 1\<rparr>]"
    and e: "contents (que (exec_ops w0 [OpSpawn 1, OpSpawn 2, OpPop, OpWake \<lparr>future = 1\<rparr>])) =
          [Some 2, Some 1]"
    by (auto split: sum.splits)
  have b: "int 2 \<le> INT_MAX" by (simp add: INT_MAX_def)
  from queue_slots_distinct [OF c f b] c f e b show ?thesis by simp
qed

theorem spawn_twice_counterexample:
  "(case executor_create demo_kernel 2 demo_heap [] [] of
      Inl e \<Rightarrow> []
    | Inr w0 \<Rightarrow> contents (que (exec_ops w0 [OpSpawn 1, OpWake \<lparr>future = 1\<rparr>]))) =
   [Some 1, Some 1]"
  by code_simp

section \<open>The drive loop and the registration counter\<close>

lemma nonempty_push: "\<not> isEmpty q \<Longrightarrow> \<not> isEmpty (push q fut)"
  by (simp add: isEmpty_def push_def Let_def)

lemma push_nonempty: "1 \<le> max_size q \<Longrightarrow> \<not> isEmpty (push q fut)"
  by (simp add: isEmpty_def push_def Let_def)

lemma nonempty_wakes:
  "\<not> isEmpty (que w) \<Longrightarrow>
     \<not> isEmpty (que (foldl (\<lambda>w' ev. waker_wake w' \<lparr>future = data_ptr ev\<rparr>) w evs))"
  by (induction evs arbitrary: w) (simp_all add: waker_wake_def executor_spawn_def nonempty_push)

lemma wakes_nonempty:
  assumes "evs \<noteq> []" and "1 \<le> max_size (que w)"
  shows "\<not> isEmpty (que (foldl (\<lambda>w' ev. waker_wake w' \<lparr>future = data_ptr ev\<rparr>) w evs))"
proof -
  from assms(1) obtain ev rest where e: "evs = ev # rest" by (cases evs) auto
  have "\<not> isEmpty (que (waker_wake w \<lparr>future = data_ptr ev\<rparr>))"
    using assms(2) by (simp add: waker_wake_def executor_spawn_def push_nonempty)
  then show ?thesis unfolding e by (simp add: nonempty_wakes)
qed

lemma mio_poll_idle: "registered_count (mio w) = 0 \<Longrightarrow> mio_poll K w = Inr w"
  by (simp add: mio_poll_def)

lemma mio_poll_wakes:
  assumes "registered_count (mio w) \<noteq> 0" and "mio_poll K w = Inr w'"
  shows "\<exists>n buf k'.
     epoll_wait K (kern w) (epoll_fd (mio w)) (mio_events (mio w)) MAX_EVENTS (- 1) = Some (n, buf, k') \<and>
     n \<noteq> - 1 \<and> nat n \<le> length buf \<and>
     w' = foldl (\<lambda>w' ev. waker_wake w' \<lparr>future = data_ptr ev\<rparr>)
            (w\<lparr>kern := k', mio := (mio w)\<lparr>mio_events := buf\<rparr>\<rparr>) (take (nat n) buf)"
  using assms by (auto simp: mio_poll_def split: option.splits if_splits)

lemma mio_poll_empty_count:
  assumes k: "waits_for_event K" and m: "1 \<le> max_size (que w)"
    and p: "mio_poll K w = Inr w'" and e: "isEmpty (que w')"
  shows "registered_count (mio w) = 0 \<and> w' = w"
proof (cases "registered_count (mio w) = 0")
  case True
  with p show ?thesis by (simp add: mio_poll_def)
next
  case False
  from mio_poll_wakes [OF False p] obtain n buf k' where
    w: "epoll_wait K (kern w) (epoll_fd (mio w)) (mio_events (mio w)) MAX_EVENTS (- 1) = Some (n, buf, k')"
    and n: "n \<noteq> - 1" "nat n \<le> length buf"
    and w': "w' = foldl (\<lambda>w' ev. waker_wake w' \<lparr>future = data_ptr ev\<rparr>)
            (w\<lparr>kern := k', mio := (mio w)\<lparr>mio_events := buf\<rparr>\<rparr>) (take (nat n) buf)"
    by blast
  from k w n(1) have "1 \<le> n" unfolding waits_for_event_def by blast
  with n(2) have "take (nat n) buf \<noteq> []" by auto
  from wakes_nonempty [OF this, of "w\<lparr>kern := k', mio := (mio w)\<lparr>mio_events := buf\<rparr>\<rparr>"] m e
  show ?thesis unfolding w' by simp
qed

lemma executor_run_count:
  "api_only K call \<Longrightarrow> waits_for_event K \<Longrightarrow> run_inv w \<Longrightarrow> \<not> isEmpty (que w) \<Longrightarrow>
   executor_run K call n w = Inr w' \<Longrightarrow> registered_count (mio w') = 0"
proof (induction n arbitrary: w)
  case 0
  then show ?case by simp
next
  case (Suc n)
  from Suc.prems(5,4) obtain w1 w2 where d: "drain call n w = Inr w1"
    and p: "mio_poll K w1 = Inr w2" and r: "executor_run K call n w2 = Inr w'"
    by (auto simp: bind_res_Inr)
  from Suc.prems(3,4) have "1 \<le> max_size (que w)"
    by (auto simp: run_inv_def que_inv_def isEmpty_def)
  with drain_inv [OF Suc.prems(1,3) d] have i1: "run_inv w1" and m1: "1 \<le> max_size (que w1)"
    by simp_all
  from mio_poll_inv [OF i1 p] have i2: "run_inv w2" by simp
  show ?case
  proof (cases "isEmpty (que w2)")
    case True
    from mio_poll_empty_count [OF Suc.prems(2) m1 p True]
    have c: "registered_count (mio w2) = 0" by simp
    from r True have "w' = w2" by (cases n) simp_all
    with c show ?thesis by simp
  next
    case False
    from Suc.IH [OF Suc.prems(1,2) i2 False r] show ?thesis .
  qed
qed

lemma waits_for_event_demo: "waits_for_event demo_kernel"
proof -
  have "1 \<le> int (length (take m (map snd k)))" if "m \<noteq> 0" "k \<noteq> []" for m and k :: "(int \<times> epoll_event) list"
    using that by (cases k; cases m) simp_all
  then show ?thesis
    unfolding waits_for_event_def demo_kernel_def
    by (auto simp: Let_def split: if_splits)
qed

text \<open>
  C9 (as amended). When \<^verbatim>\<open>executor_run\<close> is entered with a ready queue that is not
  empty and returns, the count of registered descriptors is zero at the return.
  \<^verbatim>\<open>mio_poll\<close> returns at once when the count is zero; when it is not zero and
  \<^verbatim>\<open>mio_poll\<close> returns, \<^verbatim>\<open>epoll_wait\<close> has reported at least one event, and
  \<^verbatim>\<open>mio_poll\<close> has called \<^verbatim>\<open>waker_wake\<close> once for each reported event, in order
  (which enqueues the future unless the queue is full). The kernel keeps the contract
  of \<^verbatim>\<open>epoll_wait\<close>, and progress functions use the executor's interface only.
\<close>

theorem run_returns_without_registrations:
  assumes "waits_for_event K" and "api_only K call"
    and "executor_create K cap h k junk = Inr w0" and "api_steps K w0 w"
    and "\<not> isEmpty (que w)" and "executor_run K call n w = Inr w'"
    and "int cap \<le> INT_MAX"
  shows "registered_count (mio w') = 0 \<and>
    (\<forall>v. registered_count (mio v) = 0 \<longrightarrow> mio_poll K v = Inr v) \<and>
    (\<forall>v v'. registered_count (mio v) \<noteq> 0 \<and> mio_poll K v = Inr v' \<longrightarrow>
       (\<exists>m buf k'.
          epoll_wait K (kern v) (epoll_fd (mio v)) (mio_events (mio v)) MAX_EVENTS (- 1) =
            Some (m, buf, k') \<and> 1 \<le> m \<and>
          v' = foldl (\<lambda>w' ev. waker_wake w' \<lparr>future = data_ptr ev\<rparr>)
                 (v\<lparr>kern := k', mio := (mio v)\<lparr>mio_events := buf\<rparr>\<rparr>) (take (nat m) buf)))"
proof -
  have i: "run_inv w" using run_inv_api [OF assms(4) run_inv_create [OF assms(3,7)]] .
  have a: "registered_count (mio w') = 0"
    using executor_run_count [OF assms(2,1) i assms(5,6)] .
  have b: "\<exists>m buf k'.
          epoll_wait K (kern v) (epoll_fd (mio v)) (mio_events (mio v)) MAX_EVENTS (- 1) =
            Some (m, buf, k') \<and> 1 \<le> m \<and>
          v' = foldl (\<lambda>w' ev. waker_wake w' \<lparr>future = data_ptr ev\<rparr>)
                 (v\<lparr>kern := k', mio := (mio v)\<lparr>mio_events := buf\<rparr>\<rparr>) (take (nat m) buf)"
    if "registered_count (mio v) \<noteq> 0 \<and> mio_poll K v = Inr v'" for v v'
  proof -
    from that mio_poll_wakes [of v K v'] obtain m buf k' where
      w: "epoll_wait K (kern v) (epoll_fd (mio v)) (mio_events (mio v)) MAX_EVENTS (- 1) = Some (m, buf, k')"
      and n: "m \<noteq> - 1"
      and v': "v' = foldl (\<lambda>w' ev. waker_wake w' \<lparr>future = data_ptr ev\<rparr>)
            (v\<lparr>kern := k', mio := (mio v)\<lparr>mio_events := buf\<rparr>\<rparr>) (take (nat m) buf)"
      by blast
    from assms(1) w n have "1 \<le> m" unfolding waits_for_event_def by blast
    with w v' show ?thesis by blast
  qed
  from a b show ?thesis by (simp add: mio_poll_idle)
qed


theorem run_returns_without_registrations_witness:
  "waits_for_event demo_kernel \<and> api_only demo_kernel reader_leaf \<and> int 2 \<le> INT_MAX \<and>
   (case executor_create demo_kernel 2 demo_heap [] [] of
      Inl e \<Rightarrow> False
    | Inr w0 \<Rightarrow>
        (case executor_run demo_kernel reader_leaf 6 (executor_spawn (executor_spawn w0 1) 2) of
           Inl e \<Rightarrow> False
         | Inr w' \<Rightarrow>
             length (filter (\<lambda>e. e = Progressed 1) (trace w')) = 2 \<and>
             registered_count (mio w') = 0))"
proof -
  have ev: "(case executor_create demo_kernel 2 demo_heap [] [] of
      Inl e \<Rightarrow> False
    | Inr w0 \<Rightarrow>
        \<not> isEmpty (que (executor_spawn (executor_spawn w0 1) 2)) \<and>
        (case executor_run demo_kernel reader_leaf 6 (executor_spawn (executor_spawn w0 1) 2) of
           Inl e \<Rightarrow> False
         | Inr w' \<Rightarrow> length (filter (\<lambda>e. e = Progressed 1) (trace w')) = 2))"
    by code_simp
  then obtain w0 w' where c: "executor_create demo_kernel 2 demo_heap [] [] = Inr w0"
    and ne: "\<not> isEmpty (que (executor_spawn (executor_spawn w0 1) 2))"
    and r: "executor_run demo_kernel reader_leaf 6 (executor_spawn (executor_spawn w0 1) 2) = Inr w'"
    and t: "length (filter (\<lambda>e. e = Progressed 1) (trace w')) = 2"
    by (auto split: sum.splits)
  have a: "api_steps demo_kernel w0 (executor_spawn (executor_spawn w0 1) 2)"
    by (intro api_spawn api_refl)
  have b: "int 2 \<le> INT_MAX" by (simp add: INT_MAX_def)
  from run_returns_without_registrations
    [OF waits_for_event_demo api_only_reader_leaf c a ne r b]
  have "registered_count (mio w') = 0" by simp
  with c r t waits_for_event_demo api_only_reader_leaf b show ?thesis by simp
qed

theorem run_on_empty_queue_counterexample:
  "(case executor_create demo_kernel 2 demo_heap [] [] of
      Inl e \<Rightarrow> Inl e
    | Inr w0 \<Rightarrow>
        (case executor_run demo_kernel reader_leaf 6
                (snd (mio_register demo_kernel w0 5 1 \<lparr>future = 1\<rparr>)) of
           Inl e \<Rightarrow> Inl e
         | Inr w' \<Rightarrow> Inr (registered_count (mio w'), trace w'))) =
   Inr (1, [])"
  by code_simp

section \<open>Then\<close>

lemma bind_res_simps [simp]: "bind_res (Inr x) f = f x" "bind_res (Inl e) f = Inl e"
  by (simp_all add: bind_res_def)

lemma heap_upd [simp]: "heap (upd p f w) = (heap w)(p := f (heap w p))"
  by (simp add: upd_def)

lemma as_then_eq: "ext (heap w p) = ThenExt t \<Longrightarrow> as_then w p = Inr t"
  by (simp add: as_then_def)

lemma framed_keeps:
  "call = framed base c \<Longrightarrow> call fut waker w = Inr (state, w') \<Longrightarrow>
     ext (heap w' base) = ext (heap w base)"
  by (auto simp: framed_def bind_res_def split: sum.splits if_splits)

lemma framed_iff:
  "framed base call fut waker w = Inr (state, w') \<longleftrightarrow>
     call fut waker w = Inr (state, w') \<and> ext (heap w' base) = ext (heap w base)"
  by (auto simp: framed_def bind_res_def split: sum.splits if_splits)

lemma kept_iff:
  "kept base between w = Inr w' \<longleftrightarrow>
     between w = Inr w' \<and> ext (heap w' base) = ext (heap w base)"
  by (auto simp: kept_def bind_res_def split: sum.splits if_splits)

lemma cut_off_refl: "cut_off r r"
  by (simp add: cut_off_def)

lemma cut_off_framed: "cut_off (framed base call fut waker w) (call fut waker w)"
  by (auto simp: cut_off_def framed_def bind_res_def split: sum.splits)

lemma cut_off_bind:
  assumes m: "cut_off m' m" and f: "\<And>x. cut_off (f' x) (f x)"
  shows "cut_off (bind_res m' f') (bind_res m f)"
proof (cases m)
  case (Inl e)
  with m show ?thesis by (auto simp: cut_off_def bind_res_def)
next
  case (Inr b)
  from f [of b] m Inr show ?thesis by (auto simp: cut_off_def bind_res_def)
qed

lemma cut_off_if:
  "(b \<Longrightarrow> cut_off x' x) \<Longrightarrow> (\<not> b \<Longrightarrow> cut_off y' y) \<Longrightarrow>
     cut_off (if b then x' else y') (if b then x else y)"
  by simp

lemma cut_off_prod:
  "(\<And>a b. cut_off (f' a b) (f a b)) \<Longrightarrow> cut_off (case p of (a, b) \<Rightarrow> f' a b) (case p of (a, b) \<Rightarrow> f a b)"
  by (cases p) simp

lemma cut_off_option:
  "cut_off n' n \<Longrightarrow> (\<And>a. cut_off (f' a) (f a)) \<Longrightarrow>
     cut_off (case x of None \<Rightarrow> n' | Some a \<Rightarrow> f' a) (case x of None \<Rightarrow> n | Some a \<Rightarrow> f a)"
  by (cases x) simp_all

lemma cut_off_Inr: "cut_off r' r \<Longrightarrow> r' = Inr x \<Longrightarrow> r = Inr x"
  by (auto simp: cut_off_def)

lemma kept_keeps:
  "between = kept base env \<Longrightarrow> between v = Inr v' \<Longrightarrow> ext (heap v' base) = ext (heap v base)"
  by (auto simp: kept_def bind_res_def split: sum.splits if_splits)

lemma cut_off_kept: "cut_off (kept base between w) (between w)"
  by (auto simp: cut_off_def kept_def bind_res_def split: sum.splits)

lemma cut_off_drive:
  assumes "\<And>w. cut_off (step' w) (step w)" and "\<And>w. cut_off (between' w) (between w)"
  shows "cut_off (drive step' between' n w) (drive step between n w)"
proof (induction n arbitrary: w)
  case 0
  show ?case by (simp add: cut_off_refl)
next
  case (Suc n)
  show ?case
    unfolding drive.simps
    by (intro cut_off_bind cut_off_prod cut_off_if cut_off_refl assms Suc.IH)
qed

lemma then_second_eq:
  assumes k: "call = framed base c" and e: "ext (heap w base) = ThenExt self"
  shows "then_second E call base waker w tr =
     (case call (then_fut2 self) waker w of
        Inl err \<Rightarrow> Inl err
      | Inr (state2, w2) \<Rightarrow>
          Inr (state2,
               (if state2 = FUTURE_PENDING then w2
                else if state2 = FUTURE_FAILURE
                then upd base (\<lambda>b. b\<lparr>errcode := THEN_FUTURE_ERR_FUT2_FAILED E\<rparr>) w2
                else upd base (\<lambda>b. b\<lparr>ok := ok (heap w2 (then_fut2 self))\<rparr>) w2),
               tr @ [(Fut2, then_fut2 self, state2)]))"
proof (cases "call (then_fut2 self) waker w")
  case (Inl err)
  then show ?thesis by (simp add: then_second_def as_then_eq [OF e])
next
  case (Inr r)
  obtain state2 w2 where r: "r = (state2, w2)" by (cases r)
  from framed_keeps [OF k] Inr r e have "ext (heap w2 base) = ThenExt self" by simp
  then show ?thesis
    using Inr r by (cases state2) (simp_all add: then_second_def as_then_eq [OF e] as_then_eq Let_def)
qed

lemma then_progress_eq:
  assumes k: "call = framed base c" and e: "ext (heap w base) = ThenExt self"
  shows "then_progress E call base waker w =
     (if then_fut1_completed self then then_second E call base waker w []
      else
        case call (then_fut1 self) waker w of
          Inl err \<Rightarrow> Inl err
        | Inr (state1, w1) \<Rightarrow>
            if state1 = FUTURE_PENDING then Inr (FUTURE_PENDING, w1, [(Fut1, then_fut1 self, state1)])
            else if state1 = FUTURE_FAILURE then
              Inr (FUTURE_FAILURE, upd base (\<lambda>b. b\<lparr>errcode := THEN_FUTURE_ERR_FUT1_FAILED E\<rparr>) w1,
                   [(Fut1, then_fut1 self, state1)])
            else
              then_second E call base waker
                (upd (then_fut2 self) (\<lambda>b. b\<lparr>arg := ok (heap w1 (then_fut1 self))\<rparr>)
                   (upd base (\<lambda>b. b\<lparr>ext := ThenExt (self\<lparr>then_fut1_completed := True\<rparr>)\<rparr>) w1))
                [(Fut1, then_fut1 self, state1)])"
proof (cases "then_fut1_completed self")
  case True
  then show ?thesis by (simp add: then_progress_def as_then_eq [OF e])
next
  case False
  show ?thesis
  proof (cases "call (then_fut1 self) waker w")
    case (Inl err)
    then show ?thesis using False by (simp add: then_progress_def as_then_eq [OF e])
  next
    case (Inr r)
    obtain state1 w1 where r: "r = (state1, w1)" by (cases r)
    from framed_keeps [OF k] Inr r e have "ext (heap w1 base) = ThenExt self" by simp
    then show ?thesis
      using Inr r False by (simp add: then_progress_def as_then_eq [OF e] as_then_eq Let_def)
  qed
qed

lemma then_calls_append:
  "then_calls f1 f2 d (tr1 @ tr2) =
     (case then_calls f1 f2 d tr1 of None \<Rightarrow> None | Some d' \<Rightarrow> then_calls f1 f2 d' tr2)"
proof (induction tr1 arbitrary: d)
  case Nil
  then show ?case by simp
next
  case (Cons a tr1)
  obtain c f s where a: "a = (c, f, s)" by (cases a)
  show ?case using Cons.IH by (cases c) (simp_all add: a)
qed

lemma then_second_result:
  assumes k: "call = framed base c" and e: "ext (heap w base) = ThenExt self"
    and r: "then_second E call base waker w tr0 = Inr (state, w', tr)"
  shows "ext (heap w' base) = ThenExt self \<and> tr = tr0 @ [(Fut2, then_fut2 self, state)] \<and>
    (state = FUTURE_FAILURE \<longrightarrow> errcode (heap w' base) = THEN_FUTURE_ERR_FUT2_FAILED E) \<and>
    (state = FUTURE_COMPLETED \<longrightarrow> ok (heap w' base) = ok (heap w' (then_fut2 self)))"
proof -
  from r obtain w2 where c: "call (then_fut2 self) waker w = Inr (state, w2)"
    and w': "w' = (if state = FUTURE_PENDING then w2
                else if state = FUTURE_FAILURE
                then upd base (\<lambda>b. b\<lparr>errcode := THEN_FUTURE_ERR_FUT2_FAILED E\<rparr>) w2
                else upd base (\<lambda>b. b\<lparr>ok := ok (heap w2 (then_fut2 self))\<rparr>) w2)"
    and tr: "tr = tr0 @ [(Fut2, then_fut2 self, state)]"
    unfolding then_second_eq [OF k e] by (auto split: sum.splits)
  from framed_keeps [OF k c] e have "ext (heap w2 base) = ThenExt self" by simp
  then show ?thesis using w' tr by (cases state) simp_all
qed

lemma then_progress_result:
  assumes k: "call = framed base c" and e: "ext (heap w base) = ThenExt self"
    and r: "then_progress E call base waker w = Inr (state, w', tr)"
  shows "\<exists>self'. ext (heap w' base) = ThenExt self' \<and>
    then_fut1 self' = then_fut1 self \<and> then_fut2 self' = then_fut2 self \<and>
    then_calls (then_fut1 self) (then_fut2 self) (then_fut1_completed self) tr =
      Some (then_fut1_completed self') \<and>
    tr \<noteq> [] \<and> snd (snd (last tr)) = state \<and>
    (state = FUTURE_FAILURE \<longrightarrow>
       errcode (heap w' base) =
         (if fst (last tr) = Fut1 then THEN_FUTURE_ERR_FUT1_FAILED E
          else THEN_FUTURE_ERR_FUT2_FAILED E)) \<and>
    (state = FUTURE_COMPLETED \<longrightarrow>
       fst (last tr) = Fut2 \<and> ok (heap w' base) = ok (heap w' (then_fut2 self)))"
proof (cases "then_fut1_completed self")
  case True
  with r have "then_second E call base waker w [] = Inr (state, w', tr)"
    by (simp add: then_progress_eq [OF k e])
  from then_second_result [OF k e this] True show ?thesis by simp
next
  case False
  with r obtain state1 w1 where c: "call (then_fut1 self) waker w = Inr (state1, w1)"
    by (auto simp: then_progress_eq [OF k e] split: sum.splits)
  from framed_keeps [OF k c] e have e1: "ext (heap w1 base) = ThenExt self" by simp
  show ?thesis
  proof (cases state1)
    case FUTURE_PENDING
    with r c False e1 show ?thesis by (auto simp: then_progress_eq [OF k e])
  next
    case FUTURE_FAILURE
    with r c False e1 show ?thesis by (auto simp: then_progress_eq [OF k e])
  next
    case FUTURE_COMPLETED
    define w1b where "w1b = upd (then_fut2 self) (\<lambda>b. b\<lparr>arg := ok (heap w1 (then_fut1 self))\<rparr>)
                   (upd base (\<lambda>b. b\<lparr>ext := ThenExt (self\<lparr>then_fut1_completed := True\<rparr>)\<rparr>) w1)"
    have eb: "ext (heap w1b base) = ThenExt (self\<lparr>then_fut1_completed := True\<rparr>)"
      by (simp add: w1b_def)
    from r c False FUTURE_COMPLETED
    have "then_second E call base waker w1b [(Fut1, then_fut1 self, FUTURE_COMPLETED)] = Inr (state, w', tr)"
      by (simp add: then_progress_eq [OF k e] w1b_def)
    from then_second_result [OF k eb this] False show ?thesis by simp
  qed
qed

lemma then_drive_result:
  assumes k: "call = framed base c"
    and b: "between = kept base env"
  shows "drive (then_progress E call base waker) between n w = Inr (state, w', tr) \<Longrightarrow>
    ext (heap w base) = ThenExt self \<Longrightarrow>
    \<exists>self'. ext (heap w' base) = ThenExt self' \<and>
      then_fut1 self' = then_fut1 self \<and> then_fut2 self' = then_fut2 self \<and>
      then_calls (then_fut1 self) (then_fut2 self) (then_fut1_completed self) tr =
        Some (then_fut1_completed self') \<and>
      (state \<noteq> FUTURE_PENDING \<longrightarrow> tr \<noteq> [] \<and> snd (snd (last tr)) = state) \<and>
      (state = FUTURE_FAILURE \<longrightarrow>
         errcode (heap w' base) =
           (if fst (last tr) = Fut1 then THEN_FUTURE_ERR_FUT1_FAILED E
            else THEN_FUTURE_ERR_FUT2_FAILED E)) \<and>
      (state = FUTURE_COMPLETED \<longrightarrow>
         fst (last tr) = Fut2 \<and> ok (heap w' base) = ok (heap w' (then_fut2 self)))"
proof (induction n arbitrary: w self tr)
  case 0
  then show ?case by auto
next
  case (Suc n)
  from Suc.prems(1) obtain s1 w1 tr1 where
    p: "then_progress E call base waker w = Inr (s1, w1, tr1)"
    by (cases "then_progress E call base waker w") auto
  from then_progress_result [OF k Suc.prems(2) p] obtain self1 where
    s1: "ext (heap w1 base) = ThenExt self1"
      "then_fut1 self1 = then_fut1 self" "then_fut2 self1 = then_fut2 self"
      "then_calls (then_fut1 self) (then_fut2 self) (then_fut1_completed self) tr1 =
        Some (then_fut1_completed self1)"
      "tr1 \<noteq> []" "snd (snd (last tr1)) = s1"
      "s1 = FUTURE_FAILURE \<longrightarrow>
         errcode (heap w1 base) =
           (if fst (last tr1) = Fut1 then THEN_FUTURE_ERR_FUT1_FAILED E
            else THEN_FUTURE_ERR_FUT2_FAILED E)"
      "s1 = FUTURE_COMPLETED \<longrightarrow>
         fst (last tr1) = Fut2 \<and> ok (heap w1 base) = ok (heap w1 (then_fut2 self))"
    by blast
  show ?case
  proof (cases "s1 = FUTURE_PENDING")
    case False
    with Suc.prems(1) p have "state = s1" "w' = w1" "tr = tr1" by simp_all
    with s1 show ?thesis by auto
  next
    case True
    with Suc.prems(1) p obtain w2 where bw: "between w1 = Inr w2"
      by (cases "between w1") auto
    with True Suc.prems(1) p obtain tr2 where
      d: "drive (then_progress E call base waker) between n w2 = Inr (state, w', tr2)"
      and tr: "tr = tr1 @ tr2"
      by (cases "drive (then_progress E call base waker) between n w2") auto
    from kept_keeps [OF b bw] s1(1) have "ext (heap w2 base) = ThenExt self1" by simp
    from Suc.IH [OF d this] obtain self' where
      s': "ext (heap w' base) = ThenExt self'"
      "then_fut1 self' = then_fut1 self1" "then_fut2 self' = then_fut2 self1"
      "then_calls (then_fut1 self1) (then_fut2 self1) (then_fut1_completed self1) tr2 =
        Some (then_fut1_completed self')"
      "state \<noteq> FUTURE_PENDING \<longrightarrow> tr2 \<noteq> [] \<and> snd (snd (last tr2)) = state"
      "state = FUTURE_FAILURE \<longrightarrow>
         errcode (heap w' base) =
           (if fst (last tr2) = Fut1 then THEN_FUTURE_ERR_FUT1_FAILED E
            else THEN_FUTURE_ERR_FUT2_FAILED E)"
      "state = FUTURE_COMPLETED \<longrightarrow>
         fst (last tr2) = Fut2 \<and> ok (heap w' base) = ok (heap w' (then_fut2 self1))"
      by blast
    have c: "then_calls (then_fut1 self) (then_fut2 self) (then_fut1_completed self) tr =
        Some (then_fut1_completed self')"
      unfolding tr then_calls_append using s1(2,3,4) s'(4) by simp
    have l: "state \<noteq> FUTURE_PENDING \<longrightarrow> last tr = last tr2 \<and> tr \<noteq> []"
      using s'(5) tr by simp
    show ?thesis
      using s'(1,2,3,5,6,7) s1(2,3) c l by (intro exI [of _ self']) auto
  qed
qed

lemma then_drive_contract:
  assumes k: "call = framed base c"
    and b: "between = kept base env"
    and e: "ext (heap w base) = ext (future_then fut1 fut2)"
    and d: "drive (then_progress E call base waker) between n w = Inr (state, w', tr)"
  shows "then_calls fut1 fut2 False tr \<noteq> None \<and>
       (state \<noteq> FUTURE_PENDING \<longrightarrow> tr \<noteq> [] \<and> snd (snd (last tr)) = state) \<and>
       (state = FUTURE_FAILURE \<longrightarrow>
          errcode (heap w' base) =
            (if fst (last tr) = Fut1 then THEN_FUTURE_ERR_FUT1_FAILED E
             else THEN_FUTURE_ERR_FUT2_FAILED E)) \<and>
       (state = FUTURE_COMPLETED \<longrightarrow>
          fst (last tr) = Fut2 \<and> ok (heap w' base) = ok (heap w' fut2))"
proof -
  from e have e': "ext (heap w base) =
      ThenExt \<lparr>then_fut1 = fut1, then_fut2 = fut2, then_fut1_completed = False\<rparr>"
    by (simp add: future_then_def)
  from then_drive_result [OF k b d e'] show ?thesis by auto
qed


lemma then_second_cut_off:
  "cut_off (then_second E (framed base c) b waker w tr) (then_second E c b waker w tr)"
  unfolding then_second_def
  by (intro cut_off_bind cut_off_prod cut_off_refl cut_off_framed)

lemma then_progress_cut_off:
  "cut_off (then_progress E (framed base c) b waker w) (then_progress E c b waker w)"
  unfolding then_progress_def Let_def
  by (intro cut_off_bind cut_off_if cut_off_prod cut_off_refl cut_off_framed then_second_cut_off)

text \<open>
  C4. For a ThenFuture at \<open>base\<close>, children with any progress functions (\<open>call\<close>),
  and every run in which no call made to a child changes the members of the
  ThenFuture (\<open>framed\<close>, \<open>kept\<close>): a call of \<^verbatim>\<open>then_progress\<close> with
  \<^verbatim>\<open>fut1_completed\<close> false calls \<^verbatim>\<open>fut1\<close>; on Pending it returns Pending; on
  Failure it sets errcode \<^verbatim>\<open>THEN_FUTURE_ERR_FUT1_FAILED\<close> and returns Failure, and
  \<^verbatim>\<open>fut2\<close> is not called; on Completed it sets the flag, copies \<^verbatim>\<open>fut1->ok\<close> into
  \<^verbatim>\<open>fut2->arg\<close> and only then goes on to the second future. With the flag true it
  goes to the second future at once. The second part calls \<^verbatim>\<open>fut2\<close> and returns
  its state: on Failure with errcode \<^verbatim>\<open>THEN_FUTURE_ERR_FUT2_FAILED\<close>, on Completed
  with \<^verbatim>\<open>fut2->ok\<close> copied into the ThenFuture's \<^verbatim>\<open>ok\<close>. Over every sequence of
  calls on a ThenFuture as \<^verbatim>\<open>future_then\<close> makes it, up to the first return that is
  not Pending, \<^verbatim>\<open>fut2\<close> is never called before \<^verbatim>\<open>fut1\<close> has returned Completed,
  and \<^verbatim>\<open>fut1\<close> never after; the last call made decides the result. The run with the
  check is the run of \<^verbatim>\<open>then_progress\<close> with \<open>call\<close> itself, unless the check ends
  it: a result it returns is the result of the code.
\<close>

theorem then_progress_contract:
  fixes call :: "'k call"
  shows
   "(\<forall>w self. ext (heap w base) = ThenExt self \<longrightarrow>
      then_progress E (framed base call) base waker w =
        (if then_fut1_completed self then then_second E (framed base call) base waker w []
         else
           case framed base call (then_fut1 self) waker w of
             Inl err \<Rightarrow> Inl err
           | Inr (state1, w1) \<Rightarrow>
               if state1 = FUTURE_PENDING
               then Inr (FUTURE_PENDING, w1, [(Fut1, then_fut1 self, state1)])
               else if state1 = FUTURE_FAILURE then
                 Inr (FUTURE_FAILURE,
                      upd base (\<lambda>b. b\<lparr>errcode := THEN_FUTURE_ERR_FUT1_FAILED E\<rparr>) w1,
                      [(Fut1, then_fut1 self, state1)])
               else
                 then_second E (framed base call) base waker
                   (upd (then_fut2 self) (\<lambda>b. b\<lparr>arg := ok (heap w1 (then_fut1 self))\<rparr>)
                      (upd base (\<lambda>b. b\<lparr>ext := ThenExt (self\<lparr>then_fut1_completed := True\<rparr>)\<rparr>) w1))
                   [(Fut1, then_fut1 self, state1)])) \<and>
    (\<forall>w self tr. ext (heap w base) = ThenExt self \<longrightarrow>
      then_second E (framed base call) base waker w tr =
        (case framed base call (then_fut2 self) waker w of
           Inl err \<Rightarrow> Inl err
         | Inr (state2, w2) \<Rightarrow>
             Inr (state2,
                  (if state2 = FUTURE_PENDING then w2
                   else if state2 = FUTURE_FAILURE
                   then upd base (\<lambda>b. b\<lparr>errcode := THEN_FUTURE_ERR_FUT2_FAILED E\<rparr>) w2
                   else upd base (\<lambda>b. b\<lparr>ok := ok (heap w2 (then_fut2 self))\<rparr>) w2),
                  tr @ [(Fut2, then_fut2 self, state2)]))) \<and>
    (\<forall>n w fut1 fut2 state w' tr.
       ext (heap w base) = ext (future_then fut1 fut2) \<and>
       drive (then_progress E (framed base call) base waker) (kept base between) n w =
         Inr (state, w', tr) \<longrightarrow>
       then_calls fut1 fut2 False tr \<noteq> None \<and>
       (state \<noteq> FUTURE_PENDING \<longrightarrow> tr \<noteq> [] \<and> snd (snd (last tr)) = state) \<and>
       (state = FUTURE_FAILURE \<longrightarrow>
          errcode (heap w' base) =
            (if fst (last tr) = Fut1 then THEN_FUTURE_ERR_FUT1_FAILED E
             else THEN_FUTURE_ERR_FUT2_FAILED E)) \<and>
       (state = FUTURE_COMPLETED \<longrightarrow>
          fst (last tr) = Fut2 \<and> ok (heap w' base) = ok (heap w' fut2))) \<and>
    (\<forall>w. cut_off (then_progress E (framed base call) base waker w)
            (then_progress E call base waker w)) \<and>
    (\<forall>n w. cut_off (drive (then_progress E (framed base call) base waker) (kept base between) n w)
              (drive (then_progress E call base waker) between n w))"
  apply (intro conjI)
      apply (intro allI impI, erule then_progress_eq [OF refl])
     apply (intro allI impI, erule then_second_eq [OF refl])
    apply (intro allI impI, elim conjE, rule then_drive_contract [OF refl refl], assumption+)
   apply (intro allI, rule then_progress_cut_off)
  apply (intro allI, rule cut_off_drive, rule then_progress_cut_off, rule cut_off_kept)
  done

text \<open>
  A ThenFuture whose first child is a ThenFuture, called through the progress
  pointers: the inner one returns Pending once (its first leaf does), then completes
  with 49, which the outer one hands to its second child.
\<close>

theorem then_progress_contract_witness:
  "(case drive (then_progress demo_codes
                  (framed 5 (progress_call demo_codes (\<lambda>l. demo_leaf) 2)) 5 \<lparr>future = 5\<rparr>)
           (kept 5 Inr) 3
           (demo_world ((\<lambda>p. leaf 0)(1 := leaf 2, 3 := future_then 1 2, 5 := future_then 3 4))) of
      Inl e \<Rightarrow> False
    | Inr (state, w', tr) \<Rightarrow>
        state = FUTURE_COMPLETED \<and>
        tr = [(Fut1, 3, FUTURE_PENDING), (Fut1, 3, FUTURE_COMPLETED), (Fut2, 4, FUTURE_COMPLETED)] \<and>
        ok (heap w' 3) = 49 \<and> arg (heap w' 4) = 49 \<and> ok (heap w' 4) = 56 \<and>
        ok (heap w' 5) = 56 \<and> errcode (heap w' 5) = FUTURE_SUCCESS \<and>
        then_calls 3 4 False tr \<noteq> None \<and>
        drive (then_progress demo_codes (progress_call demo_codes (\<lambda>l. demo_leaf) 2) 5 \<lparr>future = 5\<rparr>)
          Inr 3
          (demo_world ((\<lambda>p. leaf 0)(1 := leaf 2, 3 := future_then 1 2, 5 := future_then 3 4))) =
        Inr (state, w', tr))"
proof -
  define W :: "unit world"
    where "W = demo_world ((\<lambda>p. leaf 0)(1 := leaf 2, 3 := future_then 1 2, 5 := future_then 3 4))"
  define C :: "unit call" where "C = progress_call demo_codes (\<lambda>l. demo_leaf) 2"
  have ev: "(case drive (then_progress demo_codes
                  (framed 5 (progress_call demo_codes (\<lambda>l. demo_leaf) 2)) 5 \<lparr>future = 5\<rparr>)
           (kept 5 Inr) 3
           (demo_world ((\<lambda>p. leaf 0)(1 := leaf 2, 3 := future_then 1 2, 5 := future_then 3 4))
             :: unit world) of
      Inl e \<Rightarrow> False
    | Inr (state, w', tr) \<Rightarrow>
        state = FUTURE_COMPLETED \<and>
        tr = [(Fut1, 3, FUTURE_PENDING), (Fut1, 3, FUTURE_COMPLETED), (Fut2, 4, FUTURE_COMPLETED)] \<and>
        ok (heap w' 3) = 49 \<and> arg (heap w' 4) = 49 \<and> ok (heap w' 4) = 56 \<and>
        ok (heap w' 5) = 56 \<and> errcode (heap w' 5) = FUTURE_SUCCESS)"
    by code_simp
  then obtain state w' tr where
    d: "drive (then_progress demo_codes (framed 5 C) 5 \<lparr>future = 5\<rparr>) (kept 5 Inr) 3 W =
          Inr (state, w', tr)"
    and r: "state = FUTURE_COMPLETED"
      "tr = [(Fut1, 3, FUTURE_PENDING), (Fut1, 3, FUTURE_COMPLETED), (Fut2, 4, FUTURE_COMPLETED)]"
      "ok (heap w' 3) = 49" "arg (heap w' 4) = 49" "ok (heap w' 4) = 56"
      "ok (heap w' 5) = 56" "errcode (heap w' 5) = FUTURE_SUCCESS"
    unfolding W_def C_def by (auto split: sum.splits)
  have e: "ext (heap W 5) = ext (future_then 3 4)"
    by (simp add: W_def demo_world_def)
  note c = then_progress_contract
    [where E = demo_codes and waker = "\<lparr>future = 5\<rparr>" and base = 5 and call = C and between = Inr]
  have j: "then_calls 3 4 False tr \<noteq> None"
    using c [THEN conjunct2, THEN conjunct2, THEN conjunct1, rule_format, OF conjI [OF e d]]
    by (rule conjunct1)
  have t: "cut_off (drive (then_progress demo_codes (framed 5 C) 5 \<lparr>future = 5\<rparr>) (kept 5 Inr) 3 W)
             (drive (then_progress demo_codes C 5 \<lparr>future = 5\<rparr>) Inr 3 W)"
    by (rule c [THEN conjunct2, THEN conjunct2, THEN conjunct2, THEN conjunct2, rule_format])
  have k: "drive (then_progress demo_codes C 5 \<lparr>future = 5\<rparr>) Inr 3 W = Inr (state, w', tr)"
    by (rule cut_off_Inr [OF t d])
  have g: "case drive (then_progress demo_codes (framed 5 C) 5 \<lparr>future = 5\<rparr>) (kept 5 Inr) 3 W of
      Inl e \<Rightarrow> False
    | Inr (state, w', tr) \<Rightarrow>
        state = FUTURE_COMPLETED \<and>
        tr = [(Fut1, 3, FUTURE_PENDING), (Fut1, 3, FUTURE_COMPLETED), (Fut2, 4, FUTURE_COMPLETED)] \<and>
        ok (heap w' 3) = 49 \<and> arg (heap w' 4) = 49 \<and> ok (heap w' 4) = 56 \<and>
        ok (heap w' 5) = 56 \<and> errcode (heap w' 5) = FUTURE_SUCCESS \<and>
        then_calls 3 4 False tr \<noteq> None \<and>
        drive (then_progress demo_codes C 5 \<lparr>future = 5\<rparr>) Inr 3 W = Inr (state, w', tr)"
    unfolding d by (simp only: sum.case prod.case) (intro conjI r j k)
  show ?thesis
    by (rule g [unfolded W_def C_def])
qed

section \<open>Join\<close>

lemma as_join_eq: "ext (heap w p) = JoinExt t \<Longrightarrow> as_join w p = Inr t"
  by (simp add: as_join_def)

lemma join_first_eq:
  assumes k: "call = framed base c" and e: "ext (heap w base) = JoinExt self"
  shows "join_first call base waker w =
     (if join_fut1_completed self = FUTURE_PENDING then
        case call (join_fut1 self) waker w of
          Inl err \<Rightarrow> Inl err
        | Inr (state1, w1) \<Rightarrow>
            Inr (if state1 = FUTURE_PENDING then w1
                 else
                   upd base (\<lambda>b. b\<lparr>ext := JoinExt (self\<lparr>join_fut1_completed := state1,
                     result_fut1 :=
                       (if state1 = FUTURE_COMPLETED
                        then \<lparr>res_ok = ok (heap w1 (join_fut1 self)), res_errcode = FUTURE_SUCCESS\<rparr>
                        else \<lparr>res_ok = NULL, res_errcode = errcode (heap w1 (join_fut1 self))\<rparr>)\<rparr>)\<rparr>) w1,
                 [(Fut1, join_fut1 self, state1)])
      else Inr (w, []))"
proof (cases "join_fut1_completed self = FUTURE_PENDING")
  case False
  then show ?thesis by (simp add: join_first_def as_join_eq [OF e])
next
  case True
  show ?thesis
  proof (cases "call (join_fut1 self) waker w")
    case (Inl err)
    then show ?thesis using True by (simp add: join_first_def as_join_eq [OF e])
  next
    case (Inr r)
    obtain state1 w1 where r: "r = (state1, w1)" by (cases r)
    from framed_keeps [OF k] Inr r e have "ext (heap w1 base) = JoinExt self" by simp
    then show ?thesis
      using Inr r True by (cases state1) (simp_all add: join_first_def as_join_eq [OF e] as_join_eq)
  qed
qed

lemma join_second_eq:
  assumes k: "call = framed base c" and e: "ext (heap w base) = JoinExt self"
  shows "join_second call base waker w =
     (if join_fut2_completed self = FUTURE_PENDING then
        case call (join_fut2 self) waker w of
          Inl err \<Rightarrow> Inl err
        | Inr (state2, w2) \<Rightarrow>
            Inr (if state2 = FUTURE_PENDING then w2
                 else
                   upd base (\<lambda>b. b\<lparr>ext := JoinExt (self\<lparr>join_fut2_completed := state2,
                     result_fut2 :=
                       (if state2 = FUTURE_COMPLETED
                        then \<lparr>res_ok = ok (heap w2 (join_fut2 self)), res_errcode = FUTURE_SUCCESS\<rparr>
                        else \<lparr>res_ok = NULL, res_errcode = errcode (heap w2 (join_fut2 self))\<rparr>)\<rparr>)\<rparr>) w2,
                 [(Fut2, join_fut2 self, state2)])
      else Inr (w, []))"
proof (cases "join_fut2_completed self = FUTURE_PENDING")
  case False
  then show ?thesis by (simp add: join_second_def as_join_eq [OF e])
next
  case True
  show ?thesis
  proof (cases "call (join_fut2 self) waker w")
    case (Inl err)
    then show ?thesis using True by (simp add: join_second_def as_join_eq [OF e])
  next
    case (Inr r)
    obtain state2 w2 where r: "r = (state2, w2)" by (cases r)
    from framed_keeps [OF k] Inr r e have "ext (heap w2 base) = JoinExt self" by simp
    then show ?thesis
      using Inr r True by (cases state2) (simp_all add: join_second_def as_join_eq [OF e] as_join_eq)
  qed
qed

lemma join_first_result:
  assumes k: "call = framed base c" and e: "ext (heap w base) = JoinExt self"
    and r: "join_first call base waker w = Inr (w1, tr1)"
  shows "\<exists>self1. ext (heap w1 base) = JoinExt self1 \<and>
     join_fut1 self1 = join_fut1 self \<and> join_fut2 self1 = join_fut2 self \<and>
     join_fut2_completed self1 = join_fut2_completed self \<and>
     result_fut2 self1 = result_fut2 self \<and>
     (join_fut1_completed self \<noteq> FUTURE_PENDING \<longrightarrow>
        join_fut1_completed self1 = join_fut1_completed self \<and>
        result_fut1 self1 = result_fut1 self) \<and>
     tr1 = (if join_fut1_completed self = FUTURE_PENDING
            then [(Fut1, join_fut1 self, join_fut1_completed self1)] else [])"
proof (cases "join_fut1_completed self = FUTURE_PENDING")
  case False
  with r e show ?thesis by (simp add: join_first_eq [OF k e])
next
  case True
  with r obtain state1 v1 where c: "call (join_fut1 self) waker w = Inr (state1, v1)"
    by (auto simp: join_first_eq [OF k e] split: sum.splits)
  from framed_keeps [OF k c] e have e1: "ext (heap v1 base) = JoinExt self" by simp
  from r c True e1 show ?thesis
    by (cases state1) (auto simp: join_first_eq [OF k e])
qed

lemma join_second_result:
  assumes k: "call = framed base c" and e: "ext (heap w base) = JoinExt self"
    and r: "join_second call base waker w = Inr (w2, tr2)"
  shows "\<exists>self2. ext (heap w2 base) = JoinExt self2 \<and>
     join_fut1 self2 = join_fut1 self \<and> join_fut2 self2 = join_fut2 self \<and>
     join_fut1_completed self2 = join_fut1_completed self \<and>
     result_fut1 self2 = result_fut1 self \<and>
     (join_fut2_completed self \<noteq> FUTURE_PENDING \<longrightarrow>
        join_fut2_completed self2 = join_fut2_completed self \<and>
        result_fut2 self2 = result_fut2 self) \<and>
     tr2 = (if join_fut2_completed self = FUTURE_PENDING
            then [(Fut2, join_fut2 self, join_fut2_completed self2)] else [])"
proof (cases "join_fut2_completed self = FUTURE_PENDING")
  case False
  with r e show ?thesis by (simp add: join_second_eq [OF k e])
next
  case True
  with r obtain state2 v2 where c: "call (join_fut2 self) waker w = Inr (state2, v2)"
    by (auto simp: join_second_eq [OF k e] split: sum.splits)
  from framed_keeps [OF k c] e have e1: "ext (heap v2 base) = JoinExt self" by simp
  from r c True e1 show ?thesis
    by (cases state2) (auto simp: join_second_eq [OF k e])
qed

lemma join_progress_result:
  assumes k: "call = framed base c" and e: "ext (heap w base) = JoinExt self"
    and r: "join_progress E call base waker w = Inr (state, w', tr)"
  shows "\<exists>self'. ext (heap w' base) = JoinExt self' \<and>
     join_fut1 self' = join_fut1 self \<and> join_fut2 self' = join_fut2 self \<and>
     tr = (if join_fut1_completed self = FUTURE_PENDING
           then [(Fut1, join_fut1 self, join_fut1_completed self')] else []) @
          (if join_fut2_completed self = FUTURE_PENDING
           then [(Fut2, join_fut2 self, join_fut2_completed self')] else []) \<and>
     (join_fut1_completed self \<noteq> FUTURE_PENDING \<longrightarrow>
        join_fut1_completed self' = join_fut1_completed self \<and>
        result_fut1 self' = result_fut1 self) \<and>
     (join_fut2_completed self \<noteq> FUTURE_PENDING \<longrightarrow>
        join_fut2_completed self' = join_fut2_completed self \<and>
        result_fut2 self' = result_fut2 self) \<and>
     state =
       (if join_fut1_completed self' = FUTURE_PENDING \<or> join_fut2_completed self' = FUTURE_PENDING
        then FUTURE_PENDING
        else if join_fut1_completed self' = FUTURE_FAILURE \<or> join_fut2_completed self' = FUTURE_FAILURE
        then FUTURE_FAILURE else FUTURE_COMPLETED) \<and>
     (state = FUTURE_FAILURE \<longrightarrow>
        errcode (heap w' base) =
          (if join_fut1_completed self' = FUTURE_FAILURE \<and> join_fut2_completed self' = FUTURE_FAILURE
           then JOIN_FUTURE_ERR_BOTH_FUTS_FAILED E
           else if join_fut1_completed self' = FUTURE_FAILURE then JOIN_FUTURE_ERR_FUT1_FAILED E
           else JOIN_FUTURE_ERR_FUT2_FAILED E)) \<and>
     (state = FUTURE_COMPLETED \<longrightarrow> ok (heap w' base) = res_ok (result_fut1 self'))"
proof -
  from r obtain w1 tr1 w2 tr2 where
    a: "join_first call base waker w = Inr (w1, tr1)"
    and b: "join_second call base waker w1 = Inr (w2, tr2)"
    unfolding join_progress_def
    by (cases "join_first call base waker w"; cases "join_second call base waker (fst (projr (join_first call base waker w)))")
       (auto simp: bind_res_Inr split: prod.splits)
  from join_first_result [OF k e a] obtain self1 where
    s1: "ext (heap w1 base) = JoinExt self1"
     "join_fut1 self1 = join_fut1 self" "join_fut2 self1 = join_fut2 self"
     "join_fut2_completed self1 = join_fut2_completed self"
     "result_fut2 self1 = result_fut2 self"
     "join_fut1_completed self \<noteq> FUTURE_PENDING \<longrightarrow>
        join_fut1_completed self1 = join_fut1_completed self \<and>
        result_fut1 self1 = result_fut1 self"
     "tr1 = (if join_fut1_completed self = FUTURE_PENDING
            then [(Fut1, join_fut1 self, join_fut1_completed self1)] else [])"
    by blast
  from join_second_result [OF k s1(1) b] obtain self2 where
    s2: "ext (heap w2 base) = JoinExt self2"
     "join_fut1 self2 = join_fut1 self1" "join_fut2 self2 = join_fut2 self1"
     "join_fut1_completed self2 = join_fut1_completed self1"
     "result_fut1 self2 = result_fut1 self1"
     "join_fut2_completed self1 \<noteq> FUTURE_PENDING \<longrightarrow>
        join_fut2_completed self2 = join_fut2_completed self1 \<and>
        result_fut2 self2 = result_fut2 self1"
     "tr2 = (if join_fut2_completed self1 = FUTURE_PENDING
            then [(Fut2, join_fut2 self1, join_fut2_completed self2)] else [])"
    by blast
  have f: "(state, w', tr) =
     (if join_fut1_completed self2 = FUTURE_PENDING \<or> join_fut2_completed self2 = FUTURE_PENDING
       then (FUTURE_PENDING, w2, tr1 @ tr2)
       else if join_fut1_completed self2 = FUTURE_FAILURE \<and> join_fut2_completed self2 = FUTURE_FAILURE
       then (FUTURE_FAILURE,
                 upd base (\<lambda>b. b\<lparr>errcode := JOIN_FUTURE_ERR_BOTH_FUTS_FAILED E\<rparr>) w2, tr1 @ tr2)
       else if join_fut1_completed self2 = FUTURE_FAILURE
       then (FUTURE_FAILURE,
                 upd base (\<lambda>b. b\<lparr>errcode := JOIN_FUTURE_ERR_FUT1_FAILED E\<rparr>) w2, tr1 @ tr2)
       else if join_fut2_completed self2 = FUTURE_FAILURE
       then (FUTURE_FAILURE,
                 upd base (\<lambda>b. b\<lparr>errcode := JOIN_FUTURE_ERR_FUT2_FAILED E\<rparr>) w2, tr1 @ tr2)
       else (FUTURE_COMPLETED,
                 upd base (\<lambda>b. b\<lparr>ok := res_ok (result_fut1 self2)\<rparr>) w2, tr1 @ tr2))"
    using r a b
    by (cases "join_fut1_completed self2"; cases "join_fut2_completed self2")
       (simp_all add: join_progress_def as_join_eq [OF s2(1)])
  have e': "ext (heap w' base) = JoinExt self2"
    using f s2(1) by (auto split: if_splits)
  have t: "tr = tr1 @ tr2" using f by (auto split: if_splits)
  show ?thesis
  proof (intro exI [of _ self2] conjI)
    show "ext (heap w' base) = JoinExt self2" by (rule e')
    show "join_fut1 self2 = join_fut1 self" using s1 s2 by simp
    show "join_fut2 self2 = join_fut2 self" using s1 s2 by simp
    show "tr = (if join_fut1_completed self = FUTURE_PENDING
           then [(Fut1, join_fut1 self, join_fut1_completed self2)] else []) @
          (if join_fut2_completed self = FUTURE_PENDING
           then [(Fut2, join_fut2 self, join_fut2_completed self2)] else [])"
      using t s1 s2 by simp
    show "join_fut1_completed self \<noteq> FUTURE_PENDING \<longrightarrow>
        join_fut1_completed self2 = join_fut1_completed self \<and>
        result_fut1 self2 = result_fut1 self" using s1 s2 by simp
    show "join_fut2_completed self \<noteq> FUTURE_PENDING \<longrightarrow>
        join_fut2_completed self2 = join_fut2_completed self \<and>
        result_fut2 self2 = result_fut2 self" using s1 s2 by simp
    show "state =
       (if join_fut1_completed self2 = FUTURE_PENDING \<or> join_fut2_completed self2 = FUTURE_PENDING
        then FUTURE_PENDING
        else if join_fut1_completed self2 = FUTURE_FAILURE \<or> join_fut2_completed self2 = FUTURE_FAILURE
        then FUTURE_FAILURE else FUTURE_COMPLETED)"
      using f by (cases "join_fut1_completed self2"; cases "join_fut2_completed self2") simp_all
    show "state = FUTURE_FAILURE \<longrightarrow>
        errcode (heap w' base) =
          (if join_fut1_completed self2 = FUTURE_FAILURE \<and> join_fut2_completed self2 = FUTURE_FAILURE
           then JOIN_FUTURE_ERR_BOTH_FUTS_FAILED E
           else if join_fut1_completed self2 = FUTURE_FAILURE then JOIN_FUTURE_ERR_FUT1_FAILED E
           else JOIN_FUTURE_ERR_FUT2_FAILED E)"
      using f by (cases "join_fut1_completed self2"; cases "join_fut2_completed self2") simp_all
    show "state = FUTURE_COMPLETED \<longrightarrow> ok (heap w' base) = res_ok (result_fut1 self2)"
      using f by (cases "join_fut1_completed self2"; cases "join_fut2_completed self2") simp_all
  qed
qed

lemma join_calls_append:
  "join_calls f1 f2 st (tr1 @ tr2) =
     (case join_calls f1 f2 st tr1 of None \<Rightarrow> None | Some st' \<Rightarrow> join_calls f1 f2 st' tr2)"
proof (induction tr1 arbitrary: st)
  case Nil
  then show ?case by simp
next
  case (Cons a tr1)
  obtain c f s where a: "a = (c, f, s)" by (cases a)
  obtain s1 s2 where st: "st = (s1, s2)" by (cases st)
  show ?case using Cons.IH by (cases c) (simp_all add: a st)
qed

lemma join_progress_calls:
  assumes k: "call = framed base c" and e: "ext (heap w base) = JoinExt self"
    and r: "join_progress E call base waker w = Inr (state, w', tr)"
  shows "\<exists>self'. ext (heap w' base) = JoinExt self' \<and>
     join_fut1 self' = join_fut1 self \<and> join_fut2 self' = join_fut2 self \<and>
     join_calls (join_fut1 self) (join_fut2 self)
       (join_fut1_completed self, join_fut2_completed self) tr =
       Some (join_fut1_completed self', join_fut2_completed self') \<and>
     state =
       (if join_fut1_completed self' = FUTURE_PENDING \<or> join_fut2_completed self' = FUTURE_PENDING
        then FUTURE_PENDING
        else if join_fut1_completed self' = FUTURE_FAILURE \<or> join_fut2_completed self' = FUTURE_FAILURE
        then FUTURE_FAILURE else FUTURE_COMPLETED) \<and>
     (state = FUTURE_FAILURE \<longrightarrow>
        errcode (heap w' base) =
          (if join_fut1_completed self' = FUTURE_FAILURE \<and> join_fut2_completed self' = FUTURE_FAILURE
           then JOIN_FUTURE_ERR_BOTH_FUTS_FAILED E
           else if join_fut1_completed self' = FUTURE_FAILURE then JOIN_FUTURE_ERR_FUT1_FAILED E
           else JOIN_FUTURE_ERR_FUT2_FAILED E)) \<and>
     (state = FUTURE_COMPLETED \<longrightarrow> ok (heap w' base) = res_ok (result_fut1 self'))"
proof -
  from join_progress_result [OF k e r] obtain self' where
    s: "ext (heap w' base) = JoinExt self'"
     "join_fut1 self' = join_fut1 self" "join_fut2 self' = join_fut2 self"
     "tr = (if join_fut1_completed self = FUTURE_PENDING
           then [(Fut1, join_fut1 self, join_fut1_completed self')] else []) @
          (if join_fut2_completed self = FUTURE_PENDING
           then [(Fut2, join_fut2 self, join_fut2_completed self')] else [])"
     "join_fut1_completed self \<noteq> FUTURE_PENDING \<longrightarrow>
        join_fut1_completed self' = join_fut1_completed self \<and>
        result_fut1 self' = result_fut1 self"
     "join_fut2_completed self \<noteq> FUTURE_PENDING \<longrightarrow>
        join_fut2_completed self' = join_fut2_completed self \<and>
        result_fut2 self' = result_fut2 self"
     and t: "state =
       (if join_fut1_completed self' = FUTURE_PENDING \<or> join_fut2_completed self' = FUTURE_PENDING
        then FUTURE_PENDING
        else if join_fut1_completed self' = FUTURE_FAILURE \<or> join_fut2_completed self' = FUTURE_FAILURE
        then FUTURE_FAILURE else FUTURE_COMPLETED)"
     "state = FUTURE_FAILURE \<longrightarrow>
        errcode (heap w' base) =
          (if join_fut1_completed self' = FUTURE_FAILURE \<and> join_fut2_completed self' = FUTURE_FAILURE
           then JOIN_FUTURE_ERR_BOTH_FUTS_FAILED E
           else if join_fut1_completed self' = FUTURE_FAILURE then JOIN_FUTURE_ERR_FUT1_FAILED E
           else JOIN_FUTURE_ERR_FUT2_FAILED E)"
     "state = FUTURE_COMPLETED \<longrightarrow> ok (heap w' base) = res_ok (result_fut1 self')"
    by blast
  have c: "join_calls (join_fut1 self) (join_fut2 self)
       (join_fut1_completed self, join_fut2_completed self) tr =
       Some (join_fut1_completed self', join_fut2_completed self')"
    unfolding s(4) using s(5,6) by simp
  from s(1,2,3) c t show ?thesis by blast
qed

lemma join_drive_result:
  assumes k: "call = framed base c"
    and b: "between = kept base env"
  shows "drive (join_progress E call base waker) between n w = Inr (state, w', tr) \<Longrightarrow>
    ext (heap w base) = JoinExt self \<Longrightarrow>
    \<exists>self'. ext (heap w' base) = JoinExt self' \<and>
      join_fut1 self' = join_fut1 self \<and> join_fut2 self' = join_fut2 self \<and>
      join_calls (join_fut1 self) (join_fut2 self)
        (join_fut1_completed self, join_fut2_completed self) tr =
        Some (join_fut1_completed self', join_fut2_completed self') \<and>
      (state = FUTURE_FAILURE \<longrightarrow>
        errcode (heap w' base) =
          (if join_fut1_completed self' = FUTURE_FAILURE \<and> join_fut2_completed self' = FUTURE_FAILURE
           then JOIN_FUTURE_ERR_BOTH_FUTS_FAILED E
           else if join_fut1_completed self' = FUTURE_FAILURE then JOIN_FUTURE_ERR_FUT1_FAILED E
           else JOIN_FUTURE_ERR_FUT2_FAILED E)) \<and>
      (state = FUTURE_COMPLETED \<longrightarrow> ok (heap w' base) = res_ok (result_fut1 self'))"
proof (induction n arbitrary: w self tr)
  case 0
  then show ?case by auto
next
  case (Suc n)
  from Suc.prems(1) obtain s1 w1 tr1 where
    p: "join_progress E call base waker w = Inr (s1, w1, tr1)"
    by (cases "join_progress E call base waker w") auto
  from join_progress_calls [OF k Suc.prems(2) p] obtain self1 where
    s1: "ext (heap w1 base) = JoinExt self1"
      "join_fut1 self1 = join_fut1 self" "join_fut2 self1 = join_fut2 self"
      "join_calls (join_fut1 self) (join_fut2 self)
        (join_fut1_completed self, join_fut2_completed self) tr1 =
        Some (join_fut1_completed self1, join_fut2_completed self1)"
      "s1 = FUTURE_FAILURE \<longrightarrow>
        errcode (heap w1 base) =
          (if join_fut1_completed self1 = FUTURE_FAILURE \<and> join_fut2_completed self1 = FUTURE_FAILURE
           then JOIN_FUTURE_ERR_BOTH_FUTS_FAILED E
           else if join_fut1_completed self1 = FUTURE_FAILURE then JOIN_FUTURE_ERR_FUT1_FAILED E
           else JOIN_FUTURE_ERR_FUT2_FAILED E)"
      "s1 = FUTURE_COMPLETED \<longrightarrow> ok (heap w1 base) = res_ok (result_fut1 self1)"
    by blast
  show ?case
  proof (cases "s1 = FUTURE_PENDING")
    case False
    with Suc.prems(1) p have "state = s1" "w' = w1" "tr = tr1" by simp_all
    with s1 show ?thesis by blast
  next
    case True
    with Suc.prems(1) p obtain w2 where bw: "between w1 = Inr w2"
      by (cases "between w1") auto
    with True Suc.prems(1) p obtain tr2 where
      d: "drive (join_progress E call base waker) between n w2 = Inr (state, w', tr2)"
      and tr: "tr = tr1 @ tr2"
      by (cases "drive (join_progress E call base waker) between n w2") auto
    from kept_keeps [OF b bw] s1(1) have "ext (heap w2 base) = JoinExt self1" by simp
    from Suc.IH [OF d this] obtain self' where
      s': "ext (heap w' base) = JoinExt self'"
      "join_fut1 self' = join_fut1 self1" "join_fut2 self' = join_fut2 self1"
      "join_calls (join_fut1 self1) (join_fut2 self1)
        (join_fut1_completed self1, join_fut2_completed self1) tr2 =
        Some (join_fut1_completed self', join_fut2_completed self')"
      "state = FUTURE_FAILURE \<longrightarrow>
        errcode (heap w' base) =
          (if join_fut1_completed self' = FUTURE_FAILURE \<and> join_fut2_completed self' = FUTURE_FAILURE
           then JOIN_FUTURE_ERR_BOTH_FUTS_FAILED E
           else if join_fut1_completed self' = FUTURE_FAILURE then JOIN_FUTURE_ERR_FUT1_FAILED E
           else JOIN_FUTURE_ERR_FUT2_FAILED E)"
      "state = FUTURE_COMPLETED \<longrightarrow> ok (heap w' base) = res_ok (result_fut1 self')"
      by blast
    have c: "join_calls (join_fut1 self) (join_fut2 self)
        (join_fut1_completed self, join_fut2_completed self) tr =
        Some (join_fut1_completed self', join_fut2_completed self')"
      unfolding tr join_calls_append using s1(2,3,4) s'(4) by simp
    show ?thesis
      using s'(1,2,3,5,6) s1(2,3) c by (intro exI [of _ self']) simp
  qed
qed

lemma join_drive_contract:
  assumes k: "call = framed base c"
    and b: "between = kept base env"
    and e: "ext (heap w base) = ext (future_join junk fut1 fut2)"
    and d: "drive (join_progress E call base waker) between n w = Inr (state, w', tr)"
  shows "join_calls fut1 fut2 (FUTURE_PENDING, FUTURE_PENDING) tr \<noteq> None"
proof -
  from e have e': "ext (heap w base) =
      JoinExt \<lparr>join_fut1 = fut1, join_fut2 = fut2,
            join_fut1_completed = FUTURE_PENDING, join_fut2_completed = FUTURE_PENDING,
            result_fut1 = \<lparr>res_ok = NULL, res_errcode = FUTURE_SUCCESS\<rparr>,
            result_fut2 = \<lparr>res_ok = NULL, res_errcode = FUTURE_SUCCESS\<rparr>\<rparr>"
    by (simp add: future_join_def)
  from join_drive_result [OF k b d e'] show ?thesis by auto
qed






section \<open>Select\<close>

lemma as_select_eq: "ext (heap w p) = SelectExt t \<Longrightarrow> as_select w p = Inr t"
  by (simp add: as_select_def)

lemma select_first_eq:
  assumes k: "call = framed base c" and e: "ext (heap w base) = SelectExt self"
  shows "select_first call base waker w =
     (if progresses_fut1 (which_completed self) then
        case call (select_fut1 self) waker w of
          Inl err \<Rightarrow> Inl err
        | Inr (state1, w1) \<Rightarrow>
            Inr (if state1 = FUTURE_COMPLETED then Some FUTURE_COMPLETED else None,
                 (if state1 = FUTURE_PENDING then w1
                  else if state1 = FUTURE_COMPLETED then
                    upd base (\<lambda>b. b\<lparr>ok := ok (heap w1 (select_fut1 self))\<rparr>)
                      (upd base (\<lambda>b. b\<lparr>ext := SelectExt (self\<lparr>which_completed := SELECT_COMPLETED_FUT1\<rparr>)\<rparr>) w1)
                  else
                    upd base (\<lambda>b. b\<lparr>ext := SelectExt (self\<lparr>which_completed :=
                      select_step (which_completed self) Fut1 state1\<rparr>)\<rparr>) w1),
                 [(Fut1, select_fut1 self, state1)])
      else Inr (None, w, []))"
proof (cases "which_completed self = SELECT_COMPLETED_NONE \<or> which_completed self = SELECT_FAILED_FUT2")
  case False
  then show ?thesis by (simp add: select_first_def as_select_eq [OF e] progresses_fut1_def)
next
  case True
  then have p: "progresses_fut1 (which_completed self)" by (simp add: progresses_fut1_def)
  show ?thesis
  proof (cases "call (select_fut1 self) waker w")
    case (Inl err)
    then show ?thesis using True p by (simp add: select_first_def as_select_eq [OF e])
  next
    case (Inr r)
    obtain state1 w1 where r: "r = (state1, w1)" by (cases r)
    from framed_keeps [OF k] Inr r e have "ext (heap w1 base) = SelectExt self" by simp
    then show ?thesis
      using Inr r True p
      by (cases state1) (auto simp: select_first_def as_select_eq [OF e] as_select_eq Let_def)
  qed
qed

lemma select_second_eq:
  assumes k: "call = framed base c" and e: "ext (heap w base) = SelectExt self"
  shows "select_second call base waker w =
     (if progresses_fut2 (which_completed self) then
        case call (select_fut2 self) waker w of
          Inl err \<Rightarrow> Inl err
        | Inr (state2, w2) \<Rightarrow>
            Inr (if state2 = FUTURE_COMPLETED then Some FUTURE_COMPLETED else None,
                 (if state2 = FUTURE_PENDING then w2
                  else if state2 = FUTURE_COMPLETED then
                    upd base (\<lambda>b. b\<lparr>ok := ok (heap w2 (select_fut2 self))\<rparr>)
                      (upd base (\<lambda>b. b\<lparr>ext := SelectExt (self\<lparr>which_completed := SELECT_COMPLETED_FUT2\<rparr>)\<rparr>) w2)
                  else
                    upd base (\<lambda>b. b\<lparr>ext := SelectExt (self\<lparr>which_completed :=
                      select_step (which_completed self) Fut2 state2\<rparr>)\<rparr>) w2),
                 [(Fut2, select_fut2 self, state2)])
      else Inr (None, w, []))"
proof (cases "which_completed self = SELECT_COMPLETED_NONE \<or> which_completed self = SELECT_FAILED_FUT1")
  case False
  then show ?thesis by (simp add: select_second_def as_select_eq [OF e] progresses_fut2_def)
next
  case True
  then have p: "progresses_fut2 (which_completed self)" by (simp add: progresses_fut2_def)
  show ?thesis
  proof (cases "call (select_fut2 self) waker w")
    case (Inl err)
    then show ?thesis using True p by (simp add: select_second_def as_select_eq [OF e])
  next
    case (Inr r)
    obtain state2 w2 where r: "r = (state2, w2)" by (cases r)
    from framed_keeps [OF k] Inr r e have "ext (heap w2 base) = SelectExt self" by simp
    then show ?thesis
      using Inr r True p
      by (cases state2) (auto simp: select_second_def as_select_eq [OF e] as_select_eq Let_def)
  qed
qed

lemma select_first_result:
  assumes k: "call = framed base c" and e: "ext (heap w base) = SelectExt self"
    and r: "select_first call base waker w = Inr (ret, w1, tr1)"
  shows "\<exists>self1 s1. ext (heap w1 base) = SelectExt self1 \<and>
     select_fut1 self1 = select_fut1 self \<and> select_fut2 self1 = select_fut2 self \<and>
     tr1 = (if progresses_fut1 (which_completed self) then [(Fut1, select_fut1 self, s1)] else []) \<and>
     which_completed self1 =
       (if progresses_fut1 (which_completed self)
        then select_step (which_completed self) Fut1 s1 else which_completed self) \<and>
     ret = (if which_completed self1 = SELECT_COMPLETED_FUT1 \<and> progresses_fut1 (which_completed self)
            then Some FUTURE_COMPLETED else None) \<and>
     (ret \<noteq> None \<longrightarrow> ok (heap w1 base) = ok (heap w1 (select_fut1 self)))"
proof (cases "progresses_fut1 (which_completed self)")
  case False
  with r e show ?thesis by (auto simp: select_first_eq [OF k e])
next
  case True
  with r obtain state1 v1 where c: "call (select_fut1 self) waker w = Inr (state1, v1)"
    by (auto simp: select_first_eq [OF k e] split: sum.splits)
  from framed_keeps [OF k c] e have e1: "ext (heap v1 base) = SelectExt self" by simp
  from True have t: "which_completed self = SELECT_COMPLETED_NONE \<or> which_completed self = SELECT_FAILED_FUT2"
    by (simp add: progresses_fut1_def)
  show ?thesis
  proof (cases state1)
    case FUTURE_PENDING
    with r c True e1 t show ?thesis
      by (intro exI [of _ self] exI [of _ state1]) (auto simp: select_first_eq [OF k e])
  next
    case FUTURE_COMPLETED
    with r c True e1 show ?thesis
      by (intro exI [of _ "self\<lparr>which_completed := SELECT_COMPLETED_FUT1\<rparr>"] exI [of _ state1])
         (auto simp: select_first_eq [OF k e])
  next
    case FUTURE_FAILURE
    with r c True e1 t show ?thesis
      by (intro exI [of _ "self\<lparr>which_completed := select_step (which_completed self) Fut1 state1\<rparr>"]
            exI [of _ state1])
         (auto simp: select_first_eq [OF k e])
  qed
qed

lemma select_second_result:
  assumes k: "call = framed base c" and e: "ext (heap w base) = SelectExt self"
    and r: "select_second call base waker w = Inr (ret, w2, tr2)"
  shows "\<exists>self2 s2. ext (heap w2 base) = SelectExt self2 \<and>
     select_fut1 self2 = select_fut1 self \<and> select_fut2 self2 = select_fut2 self \<and>
     tr2 = (if progresses_fut2 (which_completed self) then [(Fut2, select_fut2 self, s2)] else []) \<and>
     which_completed self2 =
       (if progresses_fut2 (which_completed self)
        then select_step (which_completed self) Fut2 s2 else which_completed self) \<and>
     ret = (if which_completed self2 = SELECT_COMPLETED_FUT2 \<and> progresses_fut2 (which_completed self)
            then Some FUTURE_COMPLETED else None) \<and>
     (ret \<noteq> None \<longrightarrow> ok (heap w2 base) = ok (heap w2 (select_fut2 self)))"
proof (cases "progresses_fut2 (which_completed self)")
  case False
  with r e show ?thesis by (auto simp: select_second_eq [OF k e])
next
  case True
  with r obtain state2 v2 where c: "call (select_fut2 self) waker w = Inr (state2, v2)"
    by (auto simp: select_second_eq [OF k e] split: sum.splits)
  from framed_keeps [OF k c] e have e1: "ext (heap v2 base) = SelectExt self" by simp
  from True have t: "which_completed self = SELECT_COMPLETED_NONE \<or> which_completed self = SELECT_FAILED_FUT1"
    by (simp add: progresses_fut2_def)
  show ?thesis
  proof (cases state2)
    case FUTURE_PENDING
    with r c True e1 t show ?thesis
      by (intro exI [of _ self] exI [of _ state2]) (auto simp: select_second_eq [OF k e])
  next
    case FUTURE_COMPLETED
    with r c True e1 show ?thesis
      by (intro exI [of _ "self\<lparr>which_completed := SELECT_COMPLETED_FUT2\<rparr>"] exI [of _ state2])
         (auto simp: select_second_eq [OF k e])
  next
    case FUTURE_FAILURE
    with r c True e1 t show ?thesis
      by (intro exI [of _ "self\<lparr>which_completed := select_step (which_completed self) Fut2 state2\<rparr>"]
            exI [of _ state2])
         (auto simp: select_second_eq [OF k e])
  qed
qed

lemma select_progress_settled:
  assumes e: "ext (heap w base) = SelectExt self"
  shows "which_completed self = SELECT_COMPLETED_FUT1 \<Longrightarrow>
      select_progress call base waker w =
        Inr (FUTURE_COMPLETED, upd base (\<lambda>b. b\<lparr>ok := ok (heap w (select_fut1 self))\<rparr>) w, [])"
    and "which_completed self = SELECT_COMPLETED_FUT2 \<Longrightarrow>
      select_progress call base waker w =
        Inr (FUTURE_COMPLETED, upd base (\<lambda>b. b\<lparr>ok := ok (heap w (select_fut2 self))\<rparr>) w, [])"
    and "which_completed self = SELECT_FAILED_BOTH \<Longrightarrow>
      select_progress call base waker w =
        Inr (FUTURE_FAILURE, upd base (\<lambda>b. b\<lparr>errcode := errcode (heap w (select_fut1 self))\<rparr>) w, [])"
  by (simp_all add: select_progress_def as_select_eq [OF e])

lemma select_progress_result:
  assumes k: "call = framed base c" and e: "ext (heap w base) = SelectExt self"
    and r: "select_progress call base waker w = Inr (state, w', tr)"
  shows "\<exists>self' s1 s2. ext (heap w' base) = SelectExt self' \<and>
     select_fut1 self' = select_fut1 self \<and> select_fut2 self' = select_fut2 self \<and>
     tr = (if progresses_fut1 (which_completed self) then [(Fut1, select_fut1 self, s1)] else []) @
          (if progresses_fut2
                (if progresses_fut1 (which_completed self)
                 then select_step (which_completed self) Fut1 s1 else which_completed self)
           then [(Fut2, select_fut2 self, s2)] else []) \<and>
     which_completed self' =
       (if progresses_fut2
             (if progresses_fut1 (which_completed self)
              then select_step (which_completed self) Fut1 s1 else which_completed self)
        then select_step
               (if progresses_fut1 (which_completed self)
                then select_step (which_completed self) Fut1 s1 else which_completed self) Fut2 s2
        else (if progresses_fut1 (which_completed self)
              then select_step (which_completed self) Fut1 s1 else which_completed self)) \<and>
     state =
       (if which_completed self' = SELECT_COMPLETED_FUT1 \<or> which_completed self' = SELECT_COMPLETED_FUT2
        then FUTURE_COMPLETED
        else if which_completed self = SELECT_FAILED_BOTH then FUTURE_FAILURE
        else FUTURE_PENDING) \<and>
     (which_completed self = SELECT_FAILED_BOTH \<longrightarrow>
        errcode (heap w' base) = errcode (heap w (select_fut1 self))) \<and>
     (state = FUTURE_COMPLETED \<longrightarrow>
        ok (heap w' base) =
          ok (heap w' (if which_completed self' = SELECT_COMPLETED_FUT1
                       then select_fut1 self else select_fut2 self)))"
proof -
  consider (c1) "which_completed self = SELECT_COMPLETED_FUT1"
    | (c2) "which_completed self = SELECT_COMPLETED_FUT2"
    | (fb) "which_completed self = SELECT_FAILED_BOTH"
    | (go) "which_completed self = SELECT_COMPLETED_NONE \<or> which_completed self = SELECT_FAILED_FUT1
             \<or> which_completed self = SELECT_FAILED_FUT2"
    by (cases "which_completed self") auto
  then show ?thesis
  proof cases
    case c1
    with r select_progress_settled(1) [OF e c1, of call waker] e show ?thesis
      by (intro exI [of _ self] exI [of _ FUTURE_PENDING])
         (auto simp: progresses_fut1_def progresses_fut2_def)
  next
    case c2
    with r select_progress_settled(2) [OF e c2, of call waker] e show ?thesis
      by (intro exI [of _ self] exI [of _ FUTURE_PENDING])
         (auto simp: progresses_fut1_def progresses_fut2_def)
  next
    case fb
    with r select_progress_settled(3) [OF e fb, of call waker] e show ?thesis
      by (intro exI [of _ self] exI [of _ FUTURE_PENDING])
         (auto simp: progresses_fut1_def progresses_fut2_def)
  next
    case go
    then have n: "which_completed self \<noteq> SELECT_COMPLETED_FUT1"
      "which_completed self \<noteq> SELECT_COMPLETED_FUT2" "which_completed self \<noteq> SELECT_FAILED_BOTH"
      by auto
    from r n obtain ret1 w1 tr1 where
      a: "select_first call base waker w = Inr (ret1, w1, tr1)"
      by (cases "select_first call base waker w")
         (auto simp: select_progress_def as_select_eq [OF e])
    from select_first_result [OF k e a] obtain self1 s1 where
      s1: "ext (heap w1 base) = SelectExt self1"
       "select_fut1 self1 = select_fut1 self" "select_fut2 self1 = select_fut2 self"
       "tr1 = (if progresses_fut1 (which_completed self) then [(Fut1, select_fut1 self, s1)] else [])"
       "which_completed self1 =
         (if progresses_fut1 (which_completed self)
          then select_step (which_completed self) Fut1 s1 else which_completed self)"
       "ret1 = (if which_completed self1 = SELECT_COMPLETED_FUT1 \<and> progresses_fut1 (which_completed self)
            then Some FUTURE_COMPLETED else None)"
       "ret1 \<noteq> None \<longrightarrow> ok (heap w1 base) = ok (heap w1 (select_fut1 self))"
      by blast
    show ?thesis
    proof (cases ret1)
      case (Some st)
      with s1(6) have t1: "which_completed self1 = SELECT_COMPLETED_FUT1" and st: "st = FUTURE_COMPLETED"
        by (auto split: if_splits)
      from r n a Some st have f: "state = FUTURE_COMPLETED" "w' = w1" "tr = tr1"
        by (simp_all add: select_progress_def as_select_eq [OF e])
      have np: "\<not> progresses_fut2 (which_completed self1)"
        using t1 by (simp add: progresses_fut2_def)
      show ?thesis
        using f s1 t1 np Some n
        by (intro exI [of _ self1] exI [of _ s1] exI [of _ FUTURE_PENDING]) auto
    next
      case None
      with r n a obtain ret2 w2 tr2 where
        b: "select_second call base waker w1 = Inr (ret2, w2, tr2)"
        by (cases "select_second call base waker w1")
           (auto simp: select_progress_def as_select_eq [OF e])
      from select_second_result [OF k s1(1) b] obtain self2 s2 where
        s2: "ext (heap w2 base) = SelectExt self2"
         "select_fut1 self2 = select_fut1 self1" "select_fut2 self2 = select_fut2 self1"
         "tr2 = (if progresses_fut2 (which_completed self1) then [(Fut2, select_fut2 self1, s2)] else [])"
         "which_completed self2 =
           (if progresses_fut2 (which_completed self1)
            then select_step (which_completed self1) Fut2 s2 else which_completed self1)"
         "ret2 = (if which_completed self2 = SELECT_COMPLETED_FUT2 \<and> progresses_fut2 (which_completed self1)
              then Some FUTURE_COMPLETED else None)"
         "ret2 \<noteq> None \<longrightarrow> ok (heap w2 base) = ok (heap w2 (select_fut2 self1))"
        by blast
      from r n a b None have f: "w' = w2" "tr = tr1 @ tr2"
        "state = (case ret2 of Some st \<Rightarrow> st | None \<Rightarrow> FUTURE_PENDING)"
        by (auto simp: select_progress_def as_select_eq [OF e] split: option.splits)
      from None s1(6) have nc1: "which_completed self1 \<noteq> SELECT_COMPLETED_FUT1 \<or> \<not> progresses_fut1 (which_completed self)"
        by (auto split: if_splits)
      with s1(5) n have nc1': "which_completed self1 \<noteq> SELECT_COMPLETED_FUT1"
        by (auto split: if_splits)
      have t2: "which_completed self2 \<noteq> SELECT_COMPLETED_FUT1"
        using s2(5) nc1' by (cases s2) (auto split: if_splits)
      have nc2: "which_completed self1 \<noteq> SELECT_COMPLETED_FUT2"
        using s1(5) n by (cases s1) (auto split: if_splits)
      have st: "state = (if which_completed self2 = SELECT_COMPLETED_FUT2 then FUTURE_COMPLETED else FUTURE_PENDING)"
        using f(3) s2(5,6) nc2 by (auto split: if_splits)
      have okk: "state = FUTURE_COMPLETED \<longrightarrow> ok (heap w2 base) = ok (heap w2 (select_fut2 self))"
        using st s2(5,6,7) nc2 s1(3) by (auto split: if_splits)
      show ?thesis
        using f(1,2) s1(2,3,4,5) s2(1,2,3,4,5) st okk t2 n
        by (intro exI [of _ self2] exI [of _ s1] exI [of _ s2]) auto
    qed
  qed
qed

lemma select_calls_append:
  "select_calls f1 f2 t (tr1 @ tr2) =
     (case select_calls f1 f2 t tr1 of None \<Rightarrow> None | Some t' \<Rightarrow> select_calls f1 f2 t' tr2)"
proof (induction tr1 arbitrary: t)
  case Nil
  then show ?case by simp
next
  case (Cons a tr1)
  obtain c f s where a: "a = (c, f, s)" by (cases a)
  show ?case using Cons.IH by (cases c) (simp_all add: a)
qed

lemma select_progress_calls:
  assumes k: "call = framed base c" and e: "ext (heap w base) = SelectExt self"
    and r: "select_progress call base waker w = Inr (state, w', tr)"
  shows "\<exists>self'. ext (heap w' base) = SelectExt self' \<and>
     select_fut1 self' = select_fut1 self \<and> select_fut2 self' = select_fut2 self \<and>
     select_calls (select_fut1 self) (select_fut2 self) (which_completed self) tr =
       Some (which_completed self')"
proof -
  from select_progress_result [OF k e r] obtain self' s1 s2 where
    s: "ext (heap w' base) = SelectExt self'"
     "select_fut1 self' = select_fut1 self" "select_fut2 self' = select_fut2 self"
     "tr = (if progresses_fut1 (which_completed self) then [(Fut1, select_fut1 self, s1)] else []) @
          (if progresses_fut2
                (if progresses_fut1 (which_completed self)
                 then select_step (which_completed self) Fut1 s1 else which_completed self)
           then [(Fut2, select_fut2 self, s2)] else [])"
     "which_completed self' =
       (if progresses_fut2
             (if progresses_fut1 (which_completed self)
              then select_step (which_completed self) Fut1 s1 else which_completed self)
        then select_step
               (if progresses_fut1 (which_completed self)
                then select_step (which_completed self) Fut1 s1 else which_completed self) Fut2 s2
        else (if progresses_fut1 (which_completed self)
              then select_step (which_completed self) Fut1 s1 else which_completed self))"
    by blast
  have "select_calls (select_fut1 self) (select_fut2 self) (which_completed self) tr =
       Some (which_completed self')"
    unfolding s(4) s(5) by (simp del: select_step.simps)
  with s(1,2,3) show ?thesis by blast
qed

lemma select_drive_result:
  assumes k: "call = framed base c"
    and b: "between = kept base env"
  shows "drive (select_progress call base waker) between n w = Inr (state, w', tr) \<Longrightarrow>
    ext (heap w base) = SelectExt self \<Longrightarrow>
    \<exists>self'. ext (heap w' base) = SelectExt self' \<and>
      select_fut1 self' = select_fut1 self \<and> select_fut2 self' = select_fut2 self \<and>
      select_calls (select_fut1 self) (select_fut2 self) (which_completed self) tr =
        Some (which_completed self')"
proof (induction n arbitrary: w self tr)
  case 0
  then show ?case by auto
next
  case (Suc n)
  from Suc.prems(1) obtain s1 w1 tr1 where
    p: "select_progress call base waker w = Inr (s1, w1, tr1)"
    by (cases "select_progress call base waker w") auto
  from select_progress_calls [OF k Suc.prems(2) p] obtain self1 where
    s1: "ext (heap w1 base) = SelectExt self1"
      "select_fut1 self1 = select_fut1 self" "select_fut2 self1 = select_fut2 self"
      "select_calls (select_fut1 self) (select_fut2 self) (which_completed self) tr1 =
        Some (which_completed self1)"
    by blast
  show ?case
  proof (cases "s1 = FUTURE_PENDING")
    case False
    with Suc.prems(1) p have "state = s1" "w' = w1" "tr = tr1" by simp_all
    with s1 show ?thesis by blast
  next
    case True
    with Suc.prems(1) p obtain w2 where bw: "between w1 = Inr w2"
      by (cases "between w1") auto
    with True Suc.prems(1) p obtain tr2 where
      d: "drive (select_progress call base waker) between n w2 = Inr (state, w', tr2)"
      and tr: "tr = tr1 @ tr2"
      by (cases "drive (select_progress call base waker) between n w2") auto
    from kept_keeps [OF b bw] s1(1) have "ext (heap w2 base) = SelectExt self1" by simp
    from Suc.IH [OF d this] obtain self' where
      s': "ext (heap w' base) = SelectExt self'"
      "select_fut1 self' = select_fut1 self1" "select_fut2 self' = select_fut2 self1"
      "select_calls (select_fut1 self1) (select_fut2 self1) (which_completed self1) tr2 =
        Some (which_completed self')"
      by blast
    have c: "select_calls (select_fut1 self) (select_fut2 self) (which_completed self) tr =
        Some (which_completed self')"
      unfolding tr select_calls_append using s1(2,3,4) s'(4) by simp
    show ?thesis
      using s'(1,2,3) s1(2,3) c by (intro exI [of _ self']) simp
  qed
qed

lemma select_drive_contract:
  assumes k: "call = framed base c"
    and b: "between = kept base env"
    and e: "ext (heap w base) = ext (future_select junk fut1 fut2)"
    and d: "drive (select_progress call base waker) between n w = Inr (state, w', tr)"
  shows "select_calls fut1 fut2 SELECT_COMPLETED_NONE tr \<noteq> None"
proof -
  from e have e': "ext (heap w base) =
      SelectExt \<lparr>select_fut1 = fut1, select_fut2 = fut2, which_completed = SELECT_COMPLETED_NONE\<rparr>"
    by (simp add: future_select_def)
  from select_drive_result [OF k b d e'] show ?thesis by auto
qed

lemma upd_same: "f (heap w p) = heap w p \<Longrightarrow> upd p f w = w"
  by (simp add: upd_def)

lemma select_completed_winner:
  assumes k: "call = framed base c" and e: "ext (heap w base) = SelectExt self"
    and r: "select_progress call base waker w = Inr (FUTURE_COMPLETED, w', tr)"
  shows "\<exists>self'. ext (heap w' base) = SelectExt self' \<and>
     (which_completed self' = SELECT_COMPLETED_FUT1 \<or> which_completed self' = SELECT_COMPLETED_FUT2) \<and>
     ok (heap w' base) =
       ok (heap w' (if which_completed self' = SELECT_COMPLETED_FUT1
                    then select_fut1 self' else select_fut2 self'))"
proof -
  from select_progress_result [OF k e r] obtain self' s1 s2 where
    s: "ext (heap w' base) = SelectExt self'"
     "select_fut1 self' = select_fut1 self" "select_fut2 self' = select_fut2 self"
    and st: "FUTURE_COMPLETED =
       (if which_completed self' = SELECT_COMPLETED_FUT1 \<or> which_completed self' = SELECT_COMPLETED_FUT2
        then FUTURE_COMPLETED
        else if which_completed self = SELECT_FAILED_BOTH then FUTURE_FAILURE
        else FUTURE_PENDING)"
    and okk: "FUTURE_COMPLETED = FUTURE_COMPLETED \<longrightarrow>
        ok (heap w' base) =
          ok (heap w' (if which_completed self' = SELECT_COMPLETED_FUT1
                       then select_fut1 self else select_fut2 self))"
    by blast
  from st have t: "which_completed self' = SELECT_COMPLETED_FUT1 \<or> which_completed self' = SELECT_COMPLETED_FUT2"
    by (simp split: if_splits)
  from okk s(2,3) have "ok (heap w' base) =
       ok (heap w' (if which_completed self' = SELECT_COMPLETED_FUT1
                    then select_fut1 self' else select_fut2 self'))" by simp
  with s(1) t show ?thesis by blast
qed

lemma select_first_cut_off:
  "cut_off (select_first (framed base c) b waker w) (select_first c b waker w)"
  unfolding select_first_def
  by (intro cut_off_bind cut_off_if cut_off_prod cut_off_refl cut_off_framed)

lemma select_second_cut_off:
  "cut_off (select_second (framed base c) b waker w) (select_second c b waker w)"
  unfolding select_second_def
  by (intro cut_off_bind cut_off_if cut_off_prod cut_off_refl cut_off_framed)

lemma select_progress_cut_off:
  "cut_off (select_progress (framed base c) b waker w) (select_progress c b waker w)"
  unfolding select_progress_def
  by (intro cut_off_bind cut_off_if cut_off_prod cut_off_option cut_off_refl
        select_first_cut_off select_second_cut_off)

lemma select_settled_winner:
  assumes e: "ext (heap w base) = SelectExt self"
    and t: "which_completed self = SELECT_COMPLETED_FUT1 \<or> which_completed self = SELECT_COMPLETED_FUT2"
  shows "select_progress call base waker w =
     Inr (FUTURE_COMPLETED, upd base (\<lambda>b. b\<lparr>ok := ok (heap w (winner self))\<rparr>) w, [])"
  using t select_progress_settled(1,2) [OF e, of call waker] by (auto simp: winner_def)

lemma select_completed_tag:
  assumes k: "call = framed base c" and e: "ext (heap w base) = SelectExt self"
    and r: "select_progress call base waker w = Inr (FUTURE_COMPLETED, w', tr)"
  shows "\<exists>self'. ext (heap w' base) = SelectExt self' \<and>
     (which_completed self' = SELECT_COMPLETED_FUT1 \<or> which_completed self' = SELECT_COMPLETED_FUT2) \<and>
     ok (heap w' base) = ok (heap w' (winner self'))"
  using select_completed_winner [OF k e r] by (simp add: winner_def)

lemma select_completed_repeat:
  assumes k: "call = framed base c" and e: "ext (heap w base) = SelectExt self"
    and r: "select_progress call base waker w = Inr (FUTURE_COMPLETED, w', tr)"
    and s: "ext (heap w' base) = SelectExt self'"
    and e': "ext (heap v base) = ext (heap w' base)"
    and o: "ok (heap v (winner self')) = ok (heap w' (winner self'))"
  shows "select_progress call' base waker v =
     Inr (FUTURE_COMPLETED, upd base (\<lambda>b. b\<lparr>ok := ok (heap w' base)\<rparr>) v, [])"
proof -
  from select_completed_tag [OF k e r] s
  have t: "which_completed self' = SELECT_COMPLETED_FUT1 \<or> which_completed self' = SELECT_COMPLETED_FUT2"
    and okb: "ok (heap w' base) = ok (heap w' (winner self'))"
    by auto
  from e' s have ev: "ext (heap v base) = SelectExt self'" by simp
  show ?thesis
    unfolding select_settled_winner [OF ev t] o okb ..
qed





text \<open>
  C7 (as amended). \<^verbatim>\<open>select_progress\<close> on a SelectFuture whose tag is CompletedFut1
  or CompletedFut2 returns Completed, calls no child, and writes into \<^verbatim>\<open>ok\<close> the
  \<^verbatim>\<open>ok\<close> that the completed child (\<open>winner\<close>) holds at that call: the value is read
  again at every call, not kept from the completing call. A call that returns
  Completed leaves such a tag, with \<^verbatim>\<open>ok\<close> equal to that child's. So a later call,
  in any world where the members of the SelectFuture are what the completing call
  left and the \<^verbatim>\<open>ok\<close> of the completed child has the value it had then, returns
  Completed with the same \<^verbatim>\<open>ok\<close>, calls no child, and changes nothing else, which
  again leaves such a world. The completing call is any call in which no call made to
  a child changes the members of the SelectFuture (\<open>framed\<close>); such a call is a call
  of \<^verbatim>\<open>select_progress\<close> with \<open>call\<close> itself.
\<close>

theorem select_completed_rereads_winner:
  fixes call :: "'k call"
  shows
   "(\<forall>w self. ext (heap w base) = SelectExt self \<and>
       (which_completed self = SELECT_COMPLETED_FUT1 \<or> which_completed self = SELECT_COMPLETED_FUT2) \<longrightarrow>
       select_progress call base waker w =
         Inr (FUTURE_COMPLETED, upd base (\<lambda>b. b\<lparr>ok := ok (heap w (winner self))\<rparr>) w, [])) \<and>
    (\<forall>w self w' tr.
       ext (heap w base) = SelectExt self \<and>
       select_progress (framed base call) base waker w = Inr (FUTURE_COMPLETED, w', tr) \<longrightarrow>
       (\<exists>self'. ext (heap w' base) = SelectExt self' \<and>
          (which_completed self' = SELECT_COMPLETED_FUT1 \<or>
           which_completed self' = SELECT_COMPLETED_FUT2) \<and>
          ok (heap w' base) = ok (heap w' (winner self')))) \<and>
    (\<forall>w self w' tr self' v.
       ext (heap w base) = SelectExt self \<and>
       select_progress (framed base call) base waker w = Inr (FUTURE_COMPLETED, w', tr) \<and>
       ext (heap w' base) = SelectExt self' \<and>
       ext (heap v base) = ext (heap w' base) \<and>
       ok (heap v (winner self')) = ok (heap w' (winner self')) \<longrightarrow>
       select_progress call base waker v =
         Inr (FUTURE_COMPLETED, upd base (\<lambda>b. b\<lparr>ok := ok (heap w' base)\<rparr>) v, [])) \<and>
    (\<forall>w. cut_off (select_progress (framed base call) base waker w)
            (select_progress call base waker w))"
  apply (intro conjI)
     apply (intro allI impI, elim conjE, erule (1) select_settled_winner)
    apply (intro allI impI, elim conjE, rule select_completed_tag [OF refl], assumption+)
   apply (intro allI impI, elim conjE, rule select_completed_repeat [OF refl], assumption+)
  apply (intro allI, rule select_progress_cut_off)
  done

text \<open>
  A SelectFuture of two leaves, called through the progress pointers: the first
  leaf returns Pending, the second completes with 7. The next call returns
  Completed with 7 and leaves the world as it is; so does a call after the \<^verbatim>\<open>ok\<close> of
  the first leaf, which did not complete, has been written.
\<close>

theorem select_completed_rereads_winner_witness:
  "(case select_progress (framed 3 (progress_call demo_codes (\<lambda>l. demo_leaf) 1)) 3 \<lparr>future = 3\<rparr>
           (demo_world ((\<lambda>p. leaf 0)(1 := leaf 2, 3 := future_select (leaf 0) 1 2))) of
      Inl e \<Rightarrow> False
    | Inr (state, w1, tr) \<Rightarrow>
        state = FUTURE_COMPLETED \<and>
        tr = [(Fut1, 1, FUTURE_PENDING), (Fut2, 2, FUTURE_COMPLETED)] \<and>
        ext (heap w1 3) =
          SelectExt \<lparr>select_fut1 = 1, select_fut2 = 2, which_completed = SELECT_COMPLETED_FUT2\<rparr> \<and>
        ok (heap w1 3) = 7 \<and>
        select_progress (progress_call demo_codes (\<lambda>l. demo_leaf) 1) 3 \<lparr>future = 3\<rparr> w1 =
          Inr (FUTURE_COMPLETED, w1, []) \<and>
        select_progress (progress_call demo_codes (\<lambda>l. demo_leaf) 1) 3 \<lparr>future = 3\<rparr>
            (upd 1 (\<lambda>b. b\<lparr>ok := 99\<rparr>) w1) =
          Inr (FUTURE_COMPLETED, upd 3 (\<lambda>b. b\<lparr>ok := 7\<rparr>) (upd 1 (\<lambda>b. b\<lparr>ok := 99\<rparr>) w1), []))"
proof -
  define W :: "unit world"
    where "W = demo_world ((\<lambda>p. leaf 0)(1 := leaf 2, 3 := future_select (leaf 0) 1 2))"
  define C :: "unit call" where "C = progress_call demo_codes (\<lambda>l. demo_leaf) 1"
  define S where "S = \<lparr>select_fut1 = 1, select_fut2 = 2, which_completed = SELECT_COMPLETED_FUT2\<rparr>"
  have ev: "(case select_progress (framed 3 (progress_call demo_codes (\<lambda>l. demo_leaf) 1)) 3 \<lparr>future = 3\<rparr>
           (demo_world ((\<lambda>p. leaf 0)(1 := leaf 2, 3 := future_select (leaf 0) 1 2)) :: unit world) of
      Inl e \<Rightarrow> False
    | Inr (state, w1, tr) \<Rightarrow>
        state = FUTURE_COMPLETED \<and>
        tr = [(Fut1, 1, FUTURE_PENDING), (Fut2, 2, FUTURE_COMPLETED)] \<and>
        ext (heap w1 3) =
          SelectExt \<lparr>select_fut1 = 1, select_fut2 = 2, which_completed = SELECT_COMPLETED_FUT2\<rparr> \<and>
        ok (heap w1 3) = 7)"
    by code_simp
  then obtain state w1 tr where
    d: "select_progress (framed 3 C) 3 \<lparr>future = 3\<rparr> W = Inr (state, w1, tr)"
    and r: "state = FUTURE_COMPLETED"
      "tr = [(Fut1, 1, FUTURE_PENDING), (Fut2, 2, FUTURE_COMPLETED)]"
      "ext (heap w1 3) = SelectExt S"
      "ok (heap w1 3) = 7"
    unfolding W_def C_def S_def by (auto split: sum.splits)
  have e: "ext (heap W 3) =
      SelectExt \<lparr>select_fut1 = 1, select_fut2 = 2, which_completed = SELECT_COMPLETED_NONE\<rparr>"
    by (simp add: W_def demo_world_def future_select_def)
  from d r(1) have d': "select_progress (framed 3 C) 3 \<lparr>future = 3\<rparr> W = Inr (FUTURE_COMPLETED, w1, tr)"
    by simp
  have wn: "winner S = 2" by (simp add: winner_def S_def)
  note c = select_completed_rereads_winner
    [where waker = "\<lparr>future = 3\<rparr>" and base = 3 and call = C,
     THEN conjunct2, THEN conjunct2, THEN conjunct1, rule_format]
  have h1: "ext (heap W 3) =
      SelectExt \<lparr>select_fut1 = 1, select_fut2 = 2, which_completed = SELECT_COMPLETED_NONE\<rparr> \<and>
    select_progress (framed 3 C) 3 \<lparr>future = 3\<rparr> W = Inr (FUTURE_COMPLETED, w1, tr) \<and>
    ext (heap w1 3) = SelectExt S \<and>
    ext (heap w1 3) = ext (heap w1 3) \<and> ok (heap w1 (winner S)) = ok (heap w1 (winner S))"
    using e d' r(3) by simp
  have h2: "ext (heap W 3) =
      SelectExt \<lparr>select_fut1 = 1, select_fut2 = 2, which_completed = SELECT_COMPLETED_NONE\<rparr> \<and>
    select_progress (framed 3 C) 3 \<lparr>future = 3\<rparr> W = Inr (FUTURE_COMPLETED, w1, tr) \<and>
    ext (heap w1 3) = SelectExt S \<and>
    ext (heap (upd 1 (\<lambda>b. b\<lparr>ok := 99\<rparr>) w1) 3) = ext (heap w1 3) \<and>
    ok (heap (upd 1 (\<lambda>b. b\<lparr>ok := 99\<rparr>) w1) (winner S)) = ok (heap w1 (winner S))"
    using e d' r(3) by (simp add: wn)
  have "select_progress C 3 \<lparr>future = 3\<rparr> w1 =
      Inr (FUTURE_COMPLETED, upd 3 (\<lambda>b. b\<lparr>ok := ok (heap w1 3)\<rparr>) w1, [])"
    by (rule c [OF h1])
  moreover have "upd 3 (\<lambda>b. b\<lparr>ok := ok (heap w1 3)\<rparr>) w1 = w1"
    by (rule upd_same) simp
  ultimately have j1: "select_progress C 3 \<lparr>future = 3\<rparr> w1 = Inr (FUTURE_COMPLETED, w1, [])"
    by simp
  have "select_progress C 3 \<lparr>future = 3\<rparr> (upd 1 (\<lambda>b. b\<lparr>ok := 99\<rparr>) w1) =
      Inr (FUTURE_COMPLETED, upd 3 (\<lambda>b. b\<lparr>ok := ok (heap w1 3)\<rparr>) (upd 1 (\<lambda>b. b\<lparr>ok := 99\<rparr>) w1), [])"
    by (rule c [OF h2])
  then have j2: "select_progress C 3 \<lparr>future = 3\<rparr> (upd 1 (\<lambda>b. b\<lparr>ok := 99\<rparr>) w1) =
      Inr (FUTURE_COMPLETED, upd 3 (\<lambda>b. b\<lparr>ok := 7\<rparr>) (upd 1 (\<lambda>b. b\<lparr>ok := 99\<rparr>) w1), [])"
    by (simp only: r(4))
  have g: "case select_progress (framed 3 C) 3 \<lparr>future = 3\<rparr> W of
      Inl e \<Rightarrow> False
    | Inr (state, w1, tr) \<Rightarrow>
        state = FUTURE_COMPLETED \<and>
        tr = [(Fut1, 1, FUTURE_PENDING), (Fut2, 2, FUTURE_COMPLETED)] \<and>
        ext (heap w1 3) = SelectExt S \<and>
        ok (heap w1 3) = 7 \<and>
        select_progress C 3 \<lparr>future = 3\<rparr> w1 = Inr (FUTURE_COMPLETED, w1, []) \<and>
        select_progress C 3 \<lparr>future = 3\<rparr> (upd 1 (\<lambda>b. b\<lparr>ok := 99\<rparr>) w1) =
          Inr (FUTURE_COMPLETED, upd 3 (\<lambda>b. b\<lparr>ok := 7\<rparr>) (upd 1 (\<lambda>b. b\<lparr>ok := 99\<rparr>) w1), [])"
    unfolding d by (simp only: sum.case prod.case) (intro conjI r j1 j2)
  show ?thesis
    by (rule g [unfolded W_def C_def S_def])
qed

text \<open>
  C7 as the specification words it fails when the \<^verbatim>\<open>ok\<close> of the completed child is
  written after the completing call. Here future 1 is the first child of the
  SelectFuture 3 and the second child of the ThenFuture 4. The SelectFuture
  completes with the 7 of future 1; then the ThenFuture is progressed, hands the 7 of
  its first child to future 1 and progresses it, which leaves 14 in the \<^verbatim>\<open>ok\<close> of
  future 1 and the members of the SelectFuture as they were; the next call of
  \<^verbatim>\<open>select_progress\<close> returns Completed, calls no child, and sets \<^verbatim>\<open>ok\<close> to 14.
\<close>

theorem select_completed_ok_changes_counterexample:
  "(case select_progress (progress_call demo_codes (\<lambda>l. demo_leaf) 2) 3 \<lparr>future = 3\<rparr>
           (demo_world ((\<lambda>p. leaf 0)(3 := future_select (leaf 0) 1 2, 4 := future_then 5 1))) of
      Inl e \<Rightarrow> Inl e
    | Inr (state1, w1, tr1) \<Rightarrow>
        (case progress_call demo_codes (\<lambda>l. demo_leaf) 2 4 \<lparr>future = 4\<rparr> w1 of
           Inl e \<Rightarrow> Inl e
         | Inr (state2, w2) \<Rightarrow>
             (case select_progress (progress_call demo_codes (\<lambda>l. demo_leaf) 2) 3 \<lparr>future = 3\<rparr> w2 of
                Inl e \<Rightarrow> Inl e
              | Inr (state3, w3, tr3) \<Rightarrow>
                  Inr (state1, tr1, which_completed_of (ext (heap w1 3)), ok (heap w1 3),
                       state2, ext (heap w2 3) = ext (heap w1 3),
                       state3, tr3, which_completed_of (ext (heap w3 3)), ok (heap w3 3))))) =
   Inr (FUTURE_COMPLETED, [(Fut1, 1, FUTURE_COMPLETED)], Some SELECT_COMPLETED_FUT1, 7,
        FUTURE_COMPLETED, True,
        FUTURE_COMPLETED, [], Some SELECT_COMPLETED_FUT1, 14)"
  by code_simp


section \<open>A tree of combinators keeps the frame\<close>

text \<open>
  A call through the progress pointers changes members only of the future called and
  of the futures below it, when the leaves keep the members. So in a tree (in any
  heap where the combinator is below none of its children) no call made to a child
  changes the members of the combinator, the check of \<open>framed\<close> never ends a run,
  and the sequences of calls of the three sections above are those of the code run
  through \<^verbatim>\<open>fut->progress\<close>, whatever the nesting.
\<close>

lemma cw_refl: "changes_within S w w"
  by (simp add: changes_within_def)

lemma cw_trans: "changes_within S w w1 \<Longrightarrow> changes_within S w1 w2 \<Longrightarrow> changes_within S w w2"
  by (simp add: changes_within_def)

lemma cw_mono: "changes_within S w w' \<Longrightarrow> S \<subseteq> T \<Longrightarrow> changes_within T w w'"
  by (auto simp: changes_within_def)

lemma cw_upd_ext:
  "b \<in> S \<Longrightarrow> kids (ext (f (heap w b))) = kids (ext (heap w b)) \<Longrightarrow> changes_within S w (upd b f w)"
  by (simp add: changes_within_def)

lemma cw_upd_field:
  "ext (f (heap w p)) = ext (heap w p) \<Longrightarrow> changes_within S w (upd p f w)"
  by (simp add: changes_within_def)

lemma cw_upd_ext2:
  "b \<in> S \<Longrightarrow> ext (heap w b) = X \<Longrightarrow> kids Y = kids X \<Longrightarrow>
     changes_within S w (upd b (\<lambda>x. x\<lparr>ext := Y\<rparr>) w)"
  by (simp add: changes_within_def)

lemma cw_upd_ext_ok:
  "b \<in> S \<Longrightarrow> ext (heap w b) = X \<Longrightarrow> kids Y = kids X \<Longrightarrow>
     changes_within S w (upd b (\<lambda>x. x\<lparr>ok := v\<rparr>) (upd b (\<lambda>x. x\<lparr>ext := Y\<rparr>) w))"
  by (simp add: changes_within_def)

lemma reach_cong:
  assumes "\<forall>p. kids (ext (h' p)) = kids (ext (h p))"
  shows "reach h' a b = reach h a b"
proof
  assume "reach h' a b"
  then show "reach h a b"
    by (induction rule: reach.induct) (auto intro: reach.intros simp: assms)
next
  assume "reach h a b"
  then show "reach h' a b"
    by (induction rule: reach.induct) (auto intro: reach.intros simp: assms [rule_format, symmetric])
qed

lemma reach_cw: "changes_within S w w' \<Longrightarrow> reach (heap w') a b = reach (heap w) a b"
  by (rule reach_cong) (simp add: changes_within_def)

lemma reach_trans: "reach h b c \<Longrightarrow> reach h a b \<Longrightarrow> reach h a c"
  by (induction rule: reach.induct) (auto intro: reach.intros)

lemma below_kid:
  assumes "q \<in> kids (ext (h b))"
  shows "{p. reach h q p} \<subseteq> {p. reach h b p}"
proof -
  have "reach h b q" using assms reach_kid [of h b b q] reach_self [of h b] by blast
  then show ?thesis by (auto intro: reach_trans)
qed

lemma as_then_ext: "as_then w p = Inr t \<Longrightarrow> ext (heap w p) = ThenExt t"
  by (auto simp: as_then_def split: ext.splits)

lemma as_join_ext: "as_join w p = Inr t \<Longrightarrow> ext (heap w p) = JoinExt t"
  by (auto simp: as_join_def split: ext.splits)

lemma as_select_ext: "as_select w p = Inr t \<Longrightarrow> ext (heap w p) = SelectExt t"
  by (auto simp: as_select_def split: ext.splits)

lemma cw_kid_call:
  assumes G: "\<And>fut waker w s w'. call fut waker w = Inr (s, w') \<Longrightarrow>
                changes_within {p. reach (heap w) fut p} w w'"
    and c: "call q waker w = Inr (s, w1)"
    and k: "q \<in> kids (ext (heap w b))"
  shows "changes_within {p. reach (heap w) b p} w w1"
  by (rule cw_mono [OF G [OF c]]) (rule below_kid [of q "heap w" b, OF k])

lemma cw_below:
  "changes_within S w w1 \<Longrightarrow> changes_within {p. reach (heap w1) b p} w1 w2 \<Longrightarrow>
     changes_within {p. reach (heap w) b p} w1 w2"
  by (simp add: reach_cw)

lemma then_second_frame:
  assumes G: "\<And>fut waker w s w'. call fut waker w = Inr (s, w') \<Longrightarrow>
                changes_within {p. reach (heap w) fut p} w w'"
    and r: "then_second E call b waker w tr0 = Inr (s, w', tr)"
  shows "changes_within {p. reach (heap w) b p} w w'"
proof -
  from r obtain self where a: "as_then w b = Inr self"
    by (cases "as_then w b") (auto simp: then_second_def)
  from r a obtain s2 w2 where c: "call (then_fut2 self) waker w = Inr (s2, w2)"
    by (cases "call (then_fut2 self) waker w") (auto simp: then_second_def)
  have k: "then_fut2 self \<in> kids (ext (heap w b))"
    by (simp add: as_then_ext [OF a] kids_def)
  have 1: "changes_within {p. reach (heap w) b p} w w2"
    using G c k by (rule cw_kid_call [where call = call])
  from r a c have "w' = w2 \<or> (\<exists>c. w' = upd b (\<lambda>x. x\<lparr>errcode := c\<rparr>) w2) \<or>
      (\<exists>v. w' = upd b (\<lambda>x. x\<lparr>ok := v\<rparr>) w2)"
    by (cases "as_then w2 b") (auto simp: then_second_def Let_def split: if_splits)
  then have "changes_within {p. reach (heap w) b p} w2 w'"
    by (auto intro: cw_refl cw_upd_field)
  with 1 show ?thesis by (rule cw_trans)
qed

lemma then_progress_frame:
  assumes G: "\<And>fut waker w s w'. call fut waker w = Inr (s, w') \<Longrightarrow>
                changes_within {p. reach (heap w) fut p} w w'"
    and r: "then_progress E call b waker w = Inr (s, w', tr)"
  shows "changes_within {p. reach (heap w) b p} w w'"
proof -
  from r obtain self where a: "as_then w b = Inr self"
    by (cases "as_then w b") (auto simp: then_progress_def)
  show ?thesis
  proof (cases "then_fut1_completed self")
    case True
    with r a have "then_second E call b waker w [] = Inr (s, w', tr)"
      by (simp add: then_progress_def)
    with G show ?thesis by (rule then_second_frame [where call = call])
  next
    case False
    with r a obtain s1 w1 where c: "call (then_fut1 self) waker w = Inr (s1, w1)"
      by (cases "call (then_fut1 self) waker w") (auto simp: then_progress_def)
    have k: "then_fut1 self \<in> kids (ext (heap w b))"
      by (simp add: as_then_ext [OF a] kids_def)
    have 1: "changes_within {p. reach (heap w) b p} w w1"
      using G c k by (rule cw_kid_call [where call = call])
    show ?thesis
    proof (cases "s1 = FUTURE_COMPLETED")
      case False
      with r a c \<open>\<not> then_fut1_completed self\<close>
      have "w' = w1 \<or> (\<exists>c. w' = upd b (\<lambda>x. x\<lparr>errcode := c\<rparr>) w1)"
        by (cases s1) (auto simp: then_progress_def)
      then have "changes_within {p. reach (heap w) b p} w1 w'"
        by (auto intro: cw_refl cw_upd_field)
      with 1 show ?thesis by (rule cw_trans)
    next
      case True
      with r a c \<open>\<not> then_fut1_completed self\<close> obtain self1 where a1: "as_then w1 b = Inr self1"
        by (cases "as_then w1 b") (auto simp: then_progress_def)
      define w1a where "w1a = upd b (\<lambda>x. x\<lparr>ext := ThenExt (self1\<lparr>then_fut1_completed := True\<rparr>)\<rparr>) w1"
      define w1b where "w1b = upd (then_fut2 self1) (\<lambda>x. x\<lparr>arg := ok (heap w1a (then_fut1 self1))\<rparr>) w1a"
      from r a c \<open>\<not> then_fut1_completed self\<close> True a1
      have t: "then_second E call b waker w1b [(Fut1, then_fut1 self, s1)] = Inr (s, w', tr)"
        by (simp add: then_progress_def Let_def w1a_def w1b_def)
      have b: "b \<in> {p. reach (heap w) b p}" by (simp add: reach_self)
      have 2: "changes_within {p. reach (heap w) b p} w1 w1a"
        unfolding w1a_def using b
        by (rule cw_upd_ext) (simp add: as_then_ext [OF a1] kids_def)
      have 3: "changes_within {p. reach (heap w) b p} w1a w1b"
        unfolding w1b_def by (rule cw_upd_field) simp
      note 4 = cw_trans [OF cw_trans [OF 1 2] 3]
      have "changes_within {p. reach (heap w1b) b p} w1b w'"
        using G t by (rule then_second_frame [where call = call])
      then have 5: "changes_within {p. reach (heap w) b p} w1b w'"
        by (simp add: reach_cw [OF 4])
      from 4 5 show ?thesis by (rule cw_trans)
    qed
  qed
qed


lemma join_first_frame:
  assumes G: "\<And>fut waker w s w'. call fut waker w = Inr (s, w') \<Longrightarrow>
                changes_within {p. reach (heap w) fut p} w w'"
    and r: "join_first call b waker w = Inr (w', tr)"
  shows "changes_within {p. reach (heap w) b p} w w'"
proof -
  from r obtain self where a: "as_join w b = Inr self"
    by (cases "as_join w b") (auto simp: join_first_def)
  show ?thesis
  proof (cases "join_fut1_completed self = FUTURE_PENDING")
    case False
    with r a show ?thesis by (auto simp: join_first_def cw_refl)
  next
    case True
    with r a obtain s1 w1 where c: "call (join_fut1 self) waker w = Inr (s1, w1)"
      by (cases "call (join_fut1 self) waker w") (auto simp: join_first_def)
    with r a True obtain self1 where a1: "as_join w1 b = Inr self1"
      by (cases "as_join w1 b") (auto simp: join_first_def)
    have k: "join_fut1 self \<in> kids (ext (heap w b))"
      by (simp add: as_join_ext [OF a] kids_def)
    have 1: "changes_within {p. reach (heap w) b p} w w1"
      using G c k by (rule cw_kid_call [where call = call])
    have b: "b \<in> {p. reach (heap w) b p}" by (simp add: reach_self)
    from r a True c a1 b as_join_ext [OF a1]
    have "changes_within {p. reach (heap w) b p} w1 w'"
      by (cases s1)
         (auto simp: join_first_def kids_def Let_def intro!: cw_refl cw_upd_ext2 cw_upd_ext_ok)
    with 1 show ?thesis by (rule cw_trans)
  qed
qed

lemma join_second_frame:
  assumes G: "\<And>fut waker w s w'. call fut waker w = Inr (s, w') \<Longrightarrow>
                changes_within {p. reach (heap w) fut p} w w'"
    and r: "join_second call b waker w = Inr (w', tr)"
  shows "changes_within {p. reach (heap w) b p} w w'"
proof -
  from r obtain self where a: "as_join w b = Inr self"
    by (cases "as_join w b") (auto simp: join_second_def)
  show ?thesis
  proof (cases "join_fut2_completed self = FUTURE_PENDING")
    case False
    with r a show ?thesis by (auto simp: join_second_def cw_refl)
  next
    case True
    with r a obtain s1 w1 where c: "call (join_fut2 self) waker w = Inr (s1, w1)"
      by (cases "call (join_fut2 self) waker w") (auto simp: join_second_def)
    with r a True obtain self1 where a1: "as_join w1 b = Inr self1"
      by (cases "as_join w1 b") (auto simp: join_second_def)
    have k: "join_fut2 self \<in> kids (ext (heap w b))"
      by (simp add: as_join_ext [OF a] kids_def)
    have 1: "changes_within {p. reach (heap w) b p} w w1"
      using G c k by (rule cw_kid_call [where call = call])
    have b: "b \<in> {p. reach (heap w) b p}" by (simp add: reach_self)
    from r a True c a1 b as_join_ext [OF a1]
    have "changes_within {p. reach (heap w) b p} w1 w'"
      by (cases s1)
         (auto simp: join_second_def kids_def Let_def intro!: cw_refl cw_upd_ext2 cw_upd_ext_ok)
    with 1 show ?thesis by (rule cw_trans)
  qed
qed

lemma join_progress_frame:
  assumes G: "\<And>fut waker w s w'. call fut waker w = Inr (s, w') \<Longrightarrow>
                changes_within {p. reach (heap w) fut p} w w'"
    and r: "join_progress E call b waker w = Inr (s, w', tr)"
  shows "changes_within {p. reach (heap w) b p} w w'"
proof -
  from r obtain w1 tr1 where f: "join_first call b waker w = Inr (w1, tr1)"
    by (cases "join_first call b waker w") (auto simp: join_progress_def)
  with r obtain w2 tr2 where g: "join_second call b waker w1 = Inr (w2, tr2)"
    by (cases "join_second call b waker w1") (auto simp: join_progress_def)
  have 1: "changes_within {p. reach (heap w) b p} w w1"
    using G f by (rule join_first_frame [where call = call])
  have "changes_within {p. reach (heap w1) b p} w1 w2"
    using G g by (rule join_second_frame [where call = call])
  then have 2: "changes_within {p. reach (heap w) b p} w1 w2"
    by (simp add: reach_cw [OF 1])
  from r f g have "w' = w2 \<or> (\<exists>c. w' = upd b (\<lambda>x. x\<lparr>errcode := c\<rparr>) w2) \<or>
      (\<exists>v. w' = upd b (\<lambda>x. x\<lparr>ok := v\<rparr>) w2)"
    by (cases "as_join w2 b") (auto simp: join_progress_def split: if_splits)
  then have "changes_within {p. reach (heap w) b p} w2 w'"
    by (auto intro: cw_refl cw_upd_field)
  with cw_trans [OF 1 2] show ?thesis by (rule cw_trans)
qed

lemma select_first_frame:
  assumes G: "\<And>fut waker w s w'. call fut waker w = Inr (s, w') \<Longrightarrow>
                changes_within {p. reach (heap w) fut p} w w'"
    and r: "select_first call b waker w = Inr (s, w', tr)"
  shows "changes_within {p. reach (heap w) b p} w w'"
proof -
  from r obtain self where a: "as_select w b = Inr self"
    by (cases "as_select w b") (auto simp: select_first_def)
  show ?thesis
  proof (cases "which_completed self = SELECT_COMPLETED_NONE \<or> which_completed self = SELECT_FAILED_FUT2")
    case False
    with r a show ?thesis by (auto simp: select_first_def cw_refl)
  next
    case True
    with r a obtain s1 w1 where c: "call (select_fut1 self) waker w = Inr (s1, w1)"
      by (cases "call (select_fut1 self) waker w") (auto simp: select_first_def)
    with r a True obtain self1 where a1: "as_select w1 b = Inr self1"
      by (cases "as_select w1 b") (auto simp: select_first_def)
    have k: "select_fut1 self \<in> kids (ext (heap w b))"
      by (simp add: as_select_ext [OF a] kids_def)
    have 1: "changes_within {p. reach (heap w) b p} w w1"
      using G c k by (rule cw_kid_call [where call = call])
    have b: "b \<in> {p. reach (heap w) b p}" by (simp add: reach_self)
    from r a True c a1 b as_select_ext [OF a1]
    have "changes_within {p. reach (heap w) b p} w1 w'"
      by (cases s1)
         (auto simp: select_first_def kids_def Let_def intro!: cw_refl cw_upd_ext2 cw_upd_ext_ok)
    with 1 show ?thesis by (rule cw_trans)
  qed
qed

lemma select_second_frame:
  assumes G: "\<And>fut waker w s w'. call fut waker w = Inr (s, w') \<Longrightarrow>
                changes_within {p. reach (heap w) fut p} w w'"
    and r: "select_second call b waker w = Inr (s, w', tr)"
  shows "changes_within {p. reach (heap w) b p} w w'"
proof -
  from r obtain self where a: "as_select w b = Inr self"
    by (cases "as_select w b") (auto simp: select_second_def)
  show ?thesis
  proof (cases "which_completed self = SELECT_COMPLETED_NONE \<or> which_completed self = SELECT_FAILED_FUT1")
    case False
    with r a show ?thesis by (auto simp: select_second_def cw_refl)
  next
    case True
    with r a obtain s1 w1 where c: "call (select_fut2 self) waker w = Inr (s1, w1)"
      by (cases "call (select_fut2 self) waker w") (auto simp: select_second_def)
    with r a True obtain self1 where a1: "as_select w1 b = Inr self1"
      by (cases "as_select w1 b") (auto simp: select_second_def)
    have k: "select_fut2 self \<in> kids (ext (heap w b))"
      by (simp add: as_select_ext [OF a] kids_def)
    have 1: "changes_within {p. reach (heap w) b p} w w1"
      using G c k by (rule cw_kid_call [where call = call])
    have b: "b \<in> {p. reach (heap w) b p}" by (simp add: reach_self)
    from r a True c a1 b as_select_ext [OF a1]
    have "changes_within {p. reach (heap w) b p} w1 w'"
      by (cases s1)
         (auto simp: select_second_def kids_def Let_def intro!: cw_refl cw_upd_ext2 cw_upd_ext_ok)
    with 1 show ?thesis by (rule cw_trans)
  qed
qed

lemma select_progress_frame:
  assumes G: "\<And>fut waker w s w'. call fut waker w = Inr (s, w') \<Longrightarrow>
                changes_within {p. reach (heap w) fut p} w w'"
    and r: "select_progress call b waker w = Inr (s, w', tr)"
  shows "changes_within {p. reach (heap w) b p} w w'"
proof -
  from r obtain self where a: "as_select w b = Inr self"
    by (cases "as_select w b") (auto simp: select_progress_def)
  show ?thesis
  proof (cases "which_completed self = SELECT_COMPLETED_FUT1 \<or>
                which_completed self = SELECT_COMPLETED_FUT2 \<or>
                which_completed self = SELECT_FAILED_BOTH")
    case True
    with r a have "(\<exists>c. w' = upd b (\<lambda>x. x\<lparr>errcode := c\<rparr>) w) \<or>
        (\<exists>v. w' = upd b (\<lambda>x. x\<lparr>ok := v\<rparr>) w)"
      by (auto simp: select_progress_def split: if_splits)
    then show ?thesis by (auto intro: cw_upd_field)
  next
    case False
    with r a obtain r1 w1 tr1 where f: "select_first call b waker w = Inr (r1, w1, tr1)"
      by (cases "select_first call b waker w") (auto simp: select_progress_def)
    have 1: "changes_within {p. reach (heap w) b p} w w1"
      using G f by (rule select_first_frame [where call = call])
    show ?thesis
    proof (cases r1)
      case (Some st)
      with r a False f have "w' = w1" by (auto simp: select_progress_def)
      with 1 show ?thesis by simp
    next
      case None
      with r a False f obtain r2 w2 tr2 where g: "select_second call b waker w1 = Inr (r2, w2, tr2)"
        by (cases "select_second call b waker w1") (auto simp: select_progress_def)
      have "changes_within {p. reach (heap w1) b p} w1 w2"
        using G g by (rule select_second_frame [where call = call])
      then have 2: "changes_within {p. reach (heap w) b p} w1 w2"
        by (simp add: reach_cw [OF 1])
      from r a False f None g have "w' = w2"
        by (cases r2) (auto simp: select_progress_def)
      with cw_trans [OF 1 2] show ?thesis by simp
    qed
  qed
qed

lemma progress_call_frame:
  assumes L: "leaves_keep_members leaves"
  shows "progress_call E leaves n fut waker w = Inr (s, w') \<Longrightarrow>
     changes_within {p. reach (heap w) fut p} w w'"
proof (induction n arbitrary: fut waker w s w')
  case 0
  then show ?case by simp
next
  case (Suc n)
  note G = Suc.IH
  show ?case
  proof (cases "progress (heap w fut)")
    case then_progress_fn
    with Suc.prems obtain tr where
      "then_progress E (progress_call E leaves n) fut waker w = Inr (s, w', tr)"
      by (cases "then_progress E (progress_call E leaves n) fut waker w")
         (auto simp: forget_calls_def)
    with G show ?thesis by (rule then_progress_frame [where call = "progress_call E leaves n"])
  next
    case join_progress_fn
    with Suc.prems obtain tr where
      "join_progress E (progress_call E leaves n) fut waker w = Inr (s, w', tr)"
      by (cases "join_progress E (progress_call E leaves n) fut waker w")
         (auto simp: forget_calls_def)
    with G show ?thesis by (rule join_progress_frame [where call = "progress_call E leaves n"])
  next
    case select_progress_fn
    with Suc.prems obtain tr where
      "select_progress (progress_call E leaves n) fut waker w = Inr (s, w', tr)"
      by (cases "select_progress (progress_call E leaves n) fut waker w")
         (auto simp: forget_calls_def)
    with G show ?thesis by (rule select_progress_frame [where call = "progress_call E leaves n"])
  next
    case (leaf_progress_fn l)
    with Suc.prems have "leaves l fut waker w = Inr (s, w')" by simp
    with L show ?thesis unfolding leaves_keep_members_def changes_within_def by metis
  qed
qed

lemma framed_progress_call:
  assumes L: "leaves_keep_members leaves" and n: "\<not> reach (heap w) fut base"
  shows "framed base (progress_call E leaves n) fut waker w = progress_call E leaves n fut waker w"
proof (cases "progress_call E leaves n fut waker w")
  case (Inl e)
  then show ?thesis by (simp add: framed_def)
next
  case (Inr x)
  obtain s w' where x: "x = (s, w')" by (cases x)
  from progress_call_frame [OF L] Inr x n have "ext (heap w' base) = ext (heap w base)"
    unfolding changes_within_def by blast
  with Inr x show ?thesis by (simp add: framed_def)
qed

lemma leaves_keep_members_demo: "leaves_keep_members (\<lambda>l. demo_leaf)"
  unfolding leaves_keep_members_def demo_leaf_def
  by (auto split: progress_fn.splits if_splits)

lemma no_cycle_cw:
  assumes c: "changes_within S w w'" and n: "no_cycle (heap w) base"
  shows "no_cycle (heap w') base"
proof -
  from c have k: "kids (ext (heap w' base)) = kids (ext (heap w base))"
    by (simp add: changes_within_def)
  show ?thesis
    unfolding no_cycle_def k reach_cw [OF c] using n unfolding no_cycle_def .
qed

lemma progress_call_cw:
  assumes L: "leaves_keep_members leaves"
    and c: "progress_call E leaves n fut waker w = Inr (s, w')"
  shows "changes_within UNIV w w'"
  by (rule cw_mono [OF progress_call_frame [OF L c]]) simp

lemma bind_res_cong:
  "m = m' \<Longrightarrow> (\<And>x. m' = Inr x \<Longrightarrow> f x = g x) \<Longrightarrow> bind_res m f = bind_res m' g"
  by (cases m') (simp_all add: bind_res_def)

lemma framed_kid:
  assumes L: "leaves_keep_members leaves" and n: "no_cycle (heap w) base"
    and k: "q \<in> kids (ext (heap w base))"
  shows "framed base (progress_call E leaves m) q waker w = progress_call E leaves m q waker w"
  using n k by (intro framed_progress_call [OF L]) (simp add: no_cycle_def)

lemma then_second_framed_tree:
  assumes L: "leaves_keep_members leaves" and n: "no_cycle (heap w) base"
  shows "then_second E (framed base (progress_call E leaves m)) base waker w tr =
         then_second E (progress_call E leaves m) base waker w tr"
  unfolding then_second_def
  apply (rule bind_res_cong [OF refl])
  subgoal for self
    using framed_kid [OF L n, of "then_fut2 self" E m waker]
    by (simp add: as_then_ext kids_def)
  done

lemma then_progress_framed_tree:
  assumes L: "leaves_keep_members leaves" and n: "no_cycle (heap w) base"
  shows "then_progress E (framed base (progress_call E leaves m)) base waker w =
         then_progress E (progress_call E leaves m) base waker w"
proof (cases "as_then w base")
  case (Inl e)
  then show ?thesis by (simp add: then_progress_def)
next
  case (Inr self)
  note a = Inr
  have k1: "then_fut1 self \<in> kids (ext (heap w base))"
    by (simp add: as_then_ext [OF a] kids_def)
  show ?thesis
  proof (cases "then_fut1_completed self")
    case True
    then show ?thesis by (simp add: then_progress_def a then_second_framed_tree [OF L n])
  next
    case False
    note f = framed_kid [OF L n k1, of E m waker]
    show ?thesis
    proof (cases "progress_call E leaves m (then_fut1 self) waker w")
      case (Inl e)
      then show ?thesis by (simp add: then_progress_def a False f)
    next
      case (Inr x)
      obtain s1 w1 where x: "x = (s1, w1)" by (cases x)
      note c = Inr [unfolded x]
      note cw = progress_call_cw [OF L c]
      show ?thesis
      proof (cases "as_then w1 base")
        case (Inl e)
        then show ?thesis by (simp add: then_progress_def a False f c)
      next
        case (Inr self1)
        have nb: "no_cycle (heap (upd (then_fut2 self1) (\<lambda>b. b\<lparr>arg := v\<rparr>)
              (upd base (\<lambda>b. b\<lparr>ext := ThenExt (self1\<lparr>then_fut1_completed := True\<rparr>)\<rparr>) w1))) base" for v
        proof -
          have "changes_within UNIV w1
              (upd base (\<lambda>b. b\<lparr>ext := ThenExt (self1\<lparr>then_fut1_completed := True\<rparr>)\<rparr>) w1)"
            by (rule cw_upd_ext2 [OF UNIV_I as_then_ext [OF Inr]]) (simp add: kids_def)
          moreover have "changes_within UNIV
              (upd base (\<lambda>b. b\<lparr>ext := ThenExt (self1\<lparr>then_fut1_completed := True\<rparr>)\<rparr>) w1)
              (upd (then_fut2 self1) (\<lambda>b. b\<lparr>arg := v\<rparr>)
                (upd base (\<lambda>b. b\<lparr>ext := ThenExt (self1\<lparr>then_fut1_completed := True\<rparr>)\<rparr>) w1))"
            by (rule cw_upd_field) simp
          ultimately show ?thesis
            using cw n by (blast intro: cw_trans no_cycle_cw)
        qed
        show ?thesis
          by (simp add: then_progress_def a False f c Inr Let_def then_second_framed_tree [OF L nb])
      qed
    qed
  qed
qed

lemma join_first_framed_tree:
  assumes L: "leaves_keep_members leaves" and n: "no_cycle (heap w) base"
  shows "join_first (framed base (progress_call E leaves m)) base waker w =
         join_first (progress_call E leaves m) base waker w"
  unfolding join_first_def
  apply (rule bind_res_cong [OF refl])
  subgoal for self
    using framed_kid [OF L n, of "join_fut1 self" E m waker]
    by (simp add: as_join_ext kids_def)
  done

lemma join_second_framed_tree:
  assumes L: "leaves_keep_members leaves" and n: "no_cycle (heap w) base"
  shows "join_second (framed base (progress_call E leaves m)) base waker w =
         join_second (progress_call E leaves m) base waker w"
  unfolding join_second_def
  apply (rule bind_res_cong [OF refl])
  subgoal for self
    using framed_kid [OF L n, of "join_fut2 self" E m waker]
    by (simp add: as_join_ext kids_def)
  done

lemma join_progress_framed_tree:
  assumes L: "leaves_keep_members leaves" and n: "no_cycle (heap w) base"
  shows "join_progress E (framed base (progress_call E leaves m)) base waker w =
         join_progress E (progress_call E leaves m) base waker w"
proof (cases "join_first (progress_call E leaves m) base waker w")
  case (Inl e)
  then show ?thesis by (simp add: join_progress_def join_first_framed_tree [OF L n])
next
  case (Inr x)
  obtain w1 tr1 where x: "x = (w1, tr1)" by (cases x)
  have "changes_within {p. reach (heap w) base p} w w1"
    using progress_call_frame [OF L] Inr [unfolded x]
    by (rule join_first_frame [where call = "progress_call E leaves m"])
  then have "no_cycle (heap w1) base" using n by (rule no_cycle_cw)
  then show ?thesis
    by (simp add: join_progress_def join_first_framed_tree [OF L n] Inr x
          join_second_framed_tree [OF L])
qed

lemma select_first_framed_tree:
  assumes L: "leaves_keep_members leaves" and n: "no_cycle (heap w) base"
  shows "select_first (framed base (progress_call E leaves m)) base waker w =
         select_first (progress_call E leaves m) base waker w"
  unfolding select_first_def
  apply (rule bind_res_cong [OF refl])
  subgoal for self
    using framed_kid [OF L n, of "select_fut1 self" E m waker]
    by (simp add: as_select_ext kids_def)
  done

lemma select_second_framed_tree:
  assumes L: "leaves_keep_members leaves" and n: "no_cycle (heap w) base"
  shows "select_second (framed base (progress_call E leaves m)) base waker w =
         select_second (progress_call E leaves m) base waker w"
  unfolding select_second_def
  apply (rule bind_res_cong [OF refl])
  subgoal for self
    using framed_kid [OF L n, of "select_fut2 self" E m waker]
    by (simp add: as_select_ext kids_def)
  done

lemma select_progress_framed_tree:
  assumes L: "leaves_keep_members leaves" and n: "no_cycle (heap w) base"
  shows "select_progress (framed base (progress_call E leaves m)) base waker w =
         select_progress (progress_call E leaves m) base waker w"
proof (cases "select_first (progress_call E leaves m) base waker w")
  case (Inl e)
  then show ?thesis
    by (simp add: select_progress_def select_first_framed_tree [OF L n] cong: if_cong)
next
  case (Inr x)
  obtain r1 w1 tr1 where x: "x = (r1, w1, tr1)" by (cases x)
  have "changes_within {p. reach (heap w) base p} w w1"
    using progress_call_frame [OF L] Inr [unfolded x]
    by (rule select_first_frame [where call = "progress_call E leaves m"])
  then have "no_cycle (heap w1) base" using n by (rule no_cycle_cw)
  note e2 = select_second_framed_tree [OF L this, of E m waker]
  show ?thesis
    by (simp add: select_progress_def select_first_framed_tree [OF L n] Inr x e2
          cong: if_cong option.case_cong)
qed

lemma drive_framed_tree:
  assumes eq: "\<And>w. I w \<Longrightarrow> step' w = step w"
    and inv: "\<And>w s w' tr. I w \<Longrightarrow> step w = Inr (s, w', tr) \<Longrightarrow> I w'"
    and beq: "\<And>w. I w \<Longrightarrow> between' w = between w"
    and binv: "\<And>w w'. I w \<Longrightarrow> between w = Inr w' \<Longrightarrow> I w'"
  shows "I w \<Longrightarrow> drive step' between' n w = drive step between n w"
proof (induction n arbitrary: w)
  case 0
  show ?case by simp
next
  case (Suc n)
  show ?case
  proof (cases "step w")
    case (Inl e)
    then show ?thesis by (simp add: eq [OF Suc.prems])
  next
    case (Inr x)
    obtain s w1 tr where x: "x = (s, w1, tr)" by (cases x)
    note i1 = inv [OF Suc.prems Inr [unfolded x]]
    show ?thesis
    proof (cases "between w1")
      case (Inl e)
      then show ?thesis by (simp add: eq [OF Suc.prems] Inr x beq [OF i1])
    next
      case (Inr w2)
      from Suc.IH [OF binv [OF i1 Inr]] show ?thesis
        by (simp add: eq [OF Suc.prems] \<open>step w = Inr x\<close> x beq [OF i1] Inr)
    qed
  qed
qed

lemma kept_quiet:
  assumes "\<And>v v'. between v = Inr v' \<Longrightarrow> changes_within {} v v'"
  shows "kept base between w = between w"
proof (cases "between w")
  case (Inl e)
  then show ?thesis by (simp add: kept_def)
next
  case (Inr w')
  from assms [OF Inr] have "ext (heap w' base) = ext (heap w base)"
    by (simp add: changes_within_def)
  with Inr show ?thesis by (simp add: kept_def)
qed

lemma then_drive_framed_tree:
  assumes L: "leaves_keep_members leaves"
    and B: "\<And>v v'. between v = Inr v' \<Longrightarrow> changes_within {} v v'"
    and n: "no_cycle (heap w) base"
  shows "drive (then_progress E (framed base (progress_call E leaves m)) base waker)
           (kept base between) k w =
         drive (then_progress E (progress_call E leaves m) base waker) between k w"
proof (rule drive_framed_tree [where I = "\<lambda>w. no_cycle (heap w) base"])
  show "no_cycle (heap w) base" by (rule n)
  show "then_progress E (framed base (progress_call E leaves m)) base waker w =
        then_progress E (progress_call E leaves m) base waker w"
    if "no_cycle (heap w) base" for w
    using L that by (rule then_progress_framed_tree)
  show "no_cycle (heap w') base"
    if "no_cycle (heap w) base"
      and "then_progress E (progress_call E leaves m) base waker w = Inr (s, w', tr)"
    for w s w' tr
    using then_progress_frame [where call = "progress_call E leaves m",
            OF progress_call_frame [OF L] that(2)] that(1)
    by (rule no_cycle_cw)
  show "kept base between w = between w" for w
    using B by (rule kept_quiet)
  show "no_cycle (heap w') base" if "no_cycle (heap w) base" and "between w = Inr w'" for w w'
    using B [OF that(2)] that(1) by (rule no_cycle_cw)
qed

lemma join_drive_framed_tree:
  assumes L: "leaves_keep_members leaves"
    and B: "\<And>v v'. between v = Inr v' \<Longrightarrow> changes_within {} v v'"
    and n: "no_cycle (heap w) base"
  shows "drive (join_progress E (framed base (progress_call E leaves m)) base waker)
           (kept base between) k w =
         drive (join_progress E (progress_call E leaves m) base waker) between k w"
proof (rule drive_framed_tree [where I = "\<lambda>w. no_cycle (heap w) base"])
  show "no_cycle (heap w) base" by (rule n)
  show "join_progress E (framed base (progress_call E leaves m)) base waker w =
        join_progress E (progress_call E leaves m) base waker w"
    if "no_cycle (heap w) base" for w
    using L that by (rule join_progress_framed_tree)
  show "no_cycle (heap w') base"
    if "no_cycle (heap w) base"
      and "join_progress E (progress_call E leaves m) base waker w = Inr (s, w', tr)"
    for w s w' tr
    using join_progress_frame [where call = "progress_call E leaves m",
            OF progress_call_frame [OF L] that(2)] that(1)
    by (rule no_cycle_cw)
  show "kept base between w = between w" for w
    using B by (rule kept_quiet)
  show "no_cycle (heap w') base" if "no_cycle (heap w) base" and "between w = Inr w'" for w w'
    using B [OF that(2)] that(1) by (rule no_cycle_cw)
qed

lemma select_drive_framed_tree:
  assumes L: "leaves_keep_members leaves"
    and B: "\<And>v v'. between v = Inr v' \<Longrightarrow> changes_within {} v v'"
    and n: "no_cycle (heap w) base"
  shows "drive (select_progress (framed base (progress_call E leaves m)) base waker)
           (kept base between) k w =
         drive (select_progress (progress_call E leaves m) base waker) between k w"
proof (rule drive_framed_tree [where I = "\<lambda>w. no_cycle (heap w) base"])
  show "no_cycle (heap w) base" by (rule n)
  show "select_progress (framed base (progress_call E leaves m)) base waker w =
        select_progress (progress_call E leaves m) base waker w"
    if "no_cycle (heap w) base" for w
    using L that by (rule select_progress_framed_tree)
  show "no_cycle (heap w') base"
    if "no_cycle (heap w) base"
      and "select_progress (progress_call E leaves m) base waker w = Inr (s, w', tr)"
    for w s w' tr
    using select_progress_frame [where call = "progress_call E leaves m",
            OF progress_call_frame [OF L] that(2)] that(1)
    by (rule no_cycle_cw)
  show "kept base between w = between w" for w
    using B by (rule kept_quiet)
  show "no_cycle (heap w') base" if "no_cycle (heap w) base" and "between w = Inr w'" for w w'
    using B [OF that(2)] that(1) by (rule no_cycle_cw)
qed

text \<open>
  The order of calls of sections Then, Join and Select, for the code itself on a
  tree of futures of any depth.
\<close>

lemma then_calls_on_trees:
  assumes L: "leaves_keep_members leaves"
    and B: "\<And>v v'. between v = Inr v' \<Longrightarrow> changes_within {} v v'"
    and n: "no_cycle (heap w) base"
    and e: "ext (heap w base) = ext (future_then fut1 fut2)"
    and d: "drive (then_progress E (progress_call E leaves m) base waker) between k w =
              Inr (state, w', tr)"
  shows "then_calls fut1 fut2 False tr \<noteq> None \<and>
       (state \<noteq> FUTURE_PENDING \<longrightarrow> tr \<noteq> [] \<and> snd (snd (last tr)) = state) \<and>
       (state = FUTURE_FAILURE \<longrightarrow>
          errcode (heap w' base) =
            (if fst (last tr) = Fut1 then THEN_FUTURE_ERR_FUT1_FAILED E
             else THEN_FUTURE_ERR_FUT2_FAILED E)) \<and>
       (state = FUTURE_COMPLETED \<longrightarrow>
          fst (last tr) = Fut2 \<and> ok (heap w' base) = ok (heap w' fut2))"
proof -
  from d have "drive (then_progress E (framed base (progress_call E leaves m)) base waker)
      (kept base between) k w = Inr (state, w', tr)"
    by (simp add: then_drive_framed_tree [OF L B n])
  from then_drive_contract [OF refl refl e this] show ?thesis .
qed

lemma join_calls_on_trees:
  assumes L: "leaves_keep_members leaves"
    and B: "\<And>v v'. between v = Inr v' \<Longrightarrow> changes_within {} v v'"
    and n: "no_cycle (heap w) base"
    and e: "ext (heap w base) = ext (future_join junk fut1 fut2)"
    and d: "drive (join_progress E (progress_call E leaves m) base waker) between k w =
              Inr (state, w', tr)"
  shows "join_calls fut1 fut2 (FUTURE_PENDING, FUTURE_PENDING) tr \<noteq> None"
proof -
  from d have "drive (join_progress E (framed base (progress_call E leaves m)) base waker)
      (kept base between) k w = Inr (state, w', tr)"
    by (simp add: join_drive_framed_tree [OF L B n])
  from join_drive_contract [OF refl refl e this] show ?thesis .
qed

lemma select_calls_on_trees:
  assumes L: "leaves_keep_members leaves"
    and B: "\<And>v v'. between v = Inr v' \<Longrightarrow> changes_within {} v v'"
    and n: "no_cycle (heap w) base"
    and e: "ext (heap w base) = ext (future_select junk fut1 fut2)"
    and d: "drive (select_progress (progress_call E leaves m) base waker) between k w =
              Inr (state, w', tr)"
  shows "select_calls fut1 fut2 SELECT_COMPLETED_NONE tr \<noteq> None"
proof -
  from d have "drive (select_progress (framed base (progress_call E leaves m)) base waker)
      (kept base between) k w = Inr (state, w', tr)"
    by (simp add: select_drive_framed_tree [OF L B n])
  from select_drive_contract [OF refl refl e this] show ?thesis .
qed


text \<open>
  The heap of the example of section Then is such a tree: whatever the fuel and the
  number of calls, a run of the ThenFuture 5 through the progress pointers calls its
  children in the order of the specification.
\<close>

lemma nested_then_no_cycle:
  "no_cycle ((\<lambda>p. leaf 0)(1 := leaf 2, 3 := future_then 1 2, 5 := future_then 3 4)) 5"
proof -
  let ?h = "(\<lambda>p. leaf 0)(1 := leaf 2, 3 := future_then 1 2, 5 := future_then 3 4)"
  have a: "p \<in> {1, 2, 3}" if "reach ?h 3 p" for p
    using that
    by (induction rule: reach.induct) (auto simp: kids_def leaf_def future_then_def split: if_splits)
  have b: "p = 4" if "reach ?h 4 p" for p
    using that
    by (induction rule: reach.induct) (auto simp: kids_def leaf_def future_then_def split: if_splits)
  show ?thesis
    unfolding no_cycle_def
  proof (intro allI impI)
    fix q assume "q \<in> kids (ext (?h 5))"
    then have "q = 3 \<or> q = 4" by (simp add: kids_def future_then_def)
    then show "\<not> reach ?h q 5" using a [of 5] b [of 5] by auto
  qed
qed

lemma nested_then_example:
  assumes "drive (then_progress demo_codes (progress_call demo_codes (\<lambda>l. demo_leaf) m) 5 waker) Inr k
             (demo_world ((\<lambda>p. leaf 0)(1 := leaf 2, 3 := future_then 1 2, 5 := future_then 3 4))) =
           Inr (state, w', tr)"
  shows "then_calls 3 4 False tr \<noteq> None"
proof -
  have B: "\<And>v v'. (Inr v :: error + unit world) = Inr v' \<Longrightarrow> changes_within {} v v'"
    by (simp add: cw_refl)
  have n: "no_cycle (heap (demo_world ((\<lambda>p. leaf 0)(1 := leaf 2, 3 := future_then 1 2, 5 := future_then 3 4)))) 5"
    using nested_then_no_cycle by (simp add: demo_world_def)
  have e: "ext (heap (demo_world ((\<lambda>p. leaf 0)(1 := leaf 2, 3 := future_then 1 2, 5 := future_then 3 4))) 5) =
      ext (future_then 3 4)"
    by (simp add: demo_world_def)
  from then_calls_on_trees [OF leaves_keep_members_demo B n e assms] show ?thesis by simp
qed

section \<open>The error code of a completed SelectFuture\<close>

text \<open>
  C1, at a SelectFuture. \<^verbatim>\<open>future_select\<close> does not assign \<^verbatim>\<open>base.errcode\<close>
  (\<^verbatim>\<open>future_then\<close> and \<^verbatim>\<open>future_join\<close> assign \<^verbatim>\<open>FUTURE_SUCCESS\<close>), and
  \<^verbatim>\<open>select_progress\<close> writes it only when both children have failed. Here the struct
  is made where the stack held 99 in that member, the first child completes at its
  first progress, and the executor drives the SelectFuture: \<^verbatim>\<open>executor_run\<close> returns
  after one call of its \<^verbatim>\<open>progress\<close>, which returned Completed (the executor cleared
  \<^verbatim>\<open>is_active\<close>, the tag is CompletedFut1), and \<^verbatim>\<open>errcode\<close> is 99, not
  \<^verbatim>\<open>FUTURE_SUCCESS\<close>.
\<close>

theorem select_completed_errcode_not_success:
  "(case executor_create demo_kernel 2
           ((\<lambda>p. leaf 0)(3 := future_select ((leaf 0)\<lparr>errcode := 99\<rparr>) 1 2)) [] [] of
      Inl e \<Rightarrow> Inl e
    | Inr w0 \<Rightarrow>
        (case executor_run demo_kernel (progress_call demo_codes (\<lambda>l. demo_leaf) 2) 3
                (executor_spawn w0 3) of
           Inl e \<Rightarrow> Inl e
         | Inr w' \<Rightarrow>
             Inr (trace w', is_active (heap w' 3), which_completed_of (ext (heap w' 3)),
                  ok (heap w' 3), errcode (heap w' 3) = FUTURE_SUCCESS, errcode (heap w' 3)))) =
   Inr ([Spawned 3 True, Progressed 3], False, Some SELECT_COMPLETED_FUT1, 7, False, 99)"
  by code_simp

end
